theory Spec2Isabelle
  imports Complex_Main
begin

section \<open>Python strings\<close>

text \<open>
  A Python \<open>str\<close> is modelled as a \<^typ>\<open>string\<close> whose characters are the code points
  below 256. The predicates below are Python's own on that range: \<open>str.isspace\<close> holds
  for 0x09-0x0D, 0x1C-0x20, 0x85 and 0xA0, and \<open>str.lower\<close> moves A-Z and the Latin-1
  capitals 0xC0-0xDE (without 0xD7) up by 32.
\<close>

definition isspace :: "char \<Rightarrow> bool" where
  "isspace c = (let n = (of_char c :: nat) in
     (9 \<le> n \<and> n \<le> 13) \<or> (28 \<le> n \<and> n \<le> 32) \<or> n = 133 \<or> n = 160)"

definition lower_char :: "char \<Rightarrow> char" where
  "lower_char c = (let n = (of_char c :: nat) in
     if (65 \<le> n \<and> n \<le> 90) \<or> (192 \<le> n \<and> n \<le> 222 \<and> n \<noteq> 215)
     then char_of (n + 32) else c)"

definition lower :: "string \<Rightarrow> string" where
  "lower s = map lower_char s"

text \<open>\<open>s.strip(chars)\<close> and \<open>s.lstrip(chars)\<close>, the character set given as a predicate.\<close>

definition lstrip :: "(char \<Rightarrow> bool) \<Rightarrow> string \<Rightarrow> string" where
  "lstrip P s = dropWhile P s"

definition strip :: "(char \<Rightarrow> bool) \<Rightarrow> string \<Rightarrow> string" where
  "strip P s = rev (dropWhile P (rev (dropWhile P s)))"

text \<open>\<open>s.split()\<close>: the maximal runs of non-whitespace characters.\<close>

fun split_ws_from :: "string \<Rightarrow> string \<Rightarrow> string list" where
  "split_ws_from cur [] = (if cur = [] then [] else [rev cur])"
| "split_ws_from cur (c # cs) =
     (if isspace c
      then (if cur = [] then split_ws_from [] cs else rev cur # split_ws_from [] cs)
      else split_ws_from (c # cur) cs)"

definition split_ws :: "string \<Rightarrow> string list" where
  "split_ws s = split_ws_from [] s"

text \<open>
  \<open>s.split(sep)\<close> for a one-character separator. The result is never empty: the empty
  string gives one empty piece, and a string that ends with the separator ends with an
  empty piece.
\<close>

fun split_on :: "char \<Rightarrow> string \<Rightarrow> string list" where
  "split_on sep [] = [] # []"
| "split_on sep (c # cs) =
     (if c = sep then [] # split_on sep cs
      else (case split_on sep cs of
              [] \<Rightarrow> [c # []]
            | w # ws \<Rightarrow> (c # w) # ws))"

text \<open>\<open>sep.join(xs)\<close>.\<close>

fun join :: "string \<Rightarrow> string list \<Rightarrow> string" where
  "join sep [] = []"
| "join sep [x] = x"
| "join sep (x # y # ys) = x @ sep @ join sep (y # ys)"

text \<open>\<open>sub in s\<close> and \<open>s.endswith(suffix)\<close>.\<close>

fun contains :: "string \<Rightarrow> string \<Rightarrow> bool" where
  "contains sub [] = (sub = [])"
| "contains sub (c # cs) = (take (length sub) (c # cs) = sub \<or> contains sub cs)"

definition endswith :: "string \<Rightarrow> string \<Rightarrow> bool" where
  "endswith s suffix = (length suffix \<le> length s \<and> drop (length s - length suffix) s = suffix)"

text \<open>
  \<open>s.split(c, 1)\<close> when \<open>c in s\<close>, and \<open>s.partition(c)\<close>: the text before the first
  \<open>c\<close> and the text after it.
\<close>

definition before_first :: "char \<Rightarrow> string \<Rightarrow> string" where
  "before_first c s = takeWhile (\<lambda>x. x \<noteq> c) s"

definition after_first :: "char \<Rightarrow> string \<Rightarrow> string" where
  "after_first c s = drop 1 (dropWhile (\<lambda>x. x \<noteq> c) s)"

section \<open>urllib.parse\<close>

text \<open>
  \<open>urlparse\<close>, \<open>urlunparse\<close> and \<open>urljoin\<close> of the Python standard library (CPython 3.11,
  \<open>str\<close> arguments, \<open>allow_fragments=True\<close>), which the crawler calls on every URL.
  A \<open>ValueError\<close> of the library is the \<open>Inl\<close> branch. Two checks of \<open>urlsplit\<close> reach
  outside \<open>urllib\<close>: the validation of a bracketed host by \<open>ipaddress\<close> and \<open>re\<close>, taken
  as the parameter \<open>bracket_ok\<close> (true when \<open>_check_bracketed_host\<close> returns), and
  the NFKC check of a non-ASCII netloc, which never raises on code points below 256
  and is left out.
\<close>

datatype exn = ValueError | ClientError | TimeoutError | OtherError

record parse_result =
  scheme :: string
  netloc :: string
  path :: string
  params :: string
  query :: string
  fragment :: string

definition uses_relative :: "string list" where
  "uses_relative = ['''', ''ftp'', ''http'', ''gopher'', ''nntp'', ''imap'',
     ''wais'', ''file'', ''https'', ''shttp'', ''mms'',
     ''prospero'', ''rtsp'', ''rtsps'', ''rtspu'', ''sftp'',
     ''svn'', ''svn+ssh'', ''ws'', ''wss'']"

definition uses_netloc :: "string list" where
  "uses_netloc = ['''', ''ftp'', ''http'', ''gopher'', ''nntp'', ''telnet'',
     ''imap'', ''wais'', ''file'', ''mms'', ''https'', ''shttp'',
     ''snews'', ''prospero'', ''rtsp'', ''rtsps'', ''rtspu'', ''rsync'',
     ''svn'', ''svn+ssh'', ''sftp'', ''nfs'', ''git'', ''git+ssh'',
     ''ws'', ''wss'']"

definition uses_params :: "string list" where
  "uses_params = ['''', ''ftp'', ''hdl'', ''prospero'', ''http'', ''imap'',
     ''https'', ''shttp'', ''rtsp'', ''rtsps'', ''rtspu'', ''sip'',
     ''sips'', ''mms'', ''sftp'', ''tel'']"

definition scheme_char :: "char \<Rightarrow> bool" where
  "scheme_char c = (let n = (of_char c :: nat) in
     (97 \<le> n \<and> n \<le> 122) \<or> (65 \<le> n \<and> n \<le> 90) \<or> (48 \<le> n \<and> n \<le> 57)
     \<or> c = CHR ''+'' \<or> c = CHR ''-'' \<or> c = CHR ''.'')"

definition ascii_alpha :: "char \<Rightarrow> bool" where
  "ascii_alpha c = (let n = (of_char c :: nat) in
     (97 \<le> n \<and> n \<le> 122) \<or> (65 \<le> n \<and> n \<le> 90))"

definition c0_control_or_space :: "char \<Rightarrow> bool" where
  "c0_control_or_space c = ((of_char c :: nat) \<le> 32)"

definition unsafe_url_byte :: "char \<Rightarrow> bool" where
  "unsafe_url_byte c = ((of_char c :: nat) = 9 \<or> (of_char c :: nat) = 13 \<or> (of_char c :: nat) = 10)"

definition netloc_delim :: "char \<Rightarrow> bool" where
  "netloc_delim c = (c = CHR ''/'' \<or> c = CHR ''?'' \<or> c = CHR ''#'')"

text \<open>\<open>_splitnetloc(url, 2)\<close>: the netloc ends at the first of \<open>/\<close>, \<open>?\<close>, \<open>#\<close>.\<close>

definition splitnetloc :: "string \<Rightarrow> string \<times> string" where
  "splitnetloc url = (let r = drop 2 url in
     (takeWhile (\<lambda>c. \<not> netloc_delim c) r, dropWhile (\<lambda>c. \<not> netloc_delim c) r))"

definition urlsplit :: "(string \<Rightarrow> bool) \<Rightarrow> string \<Rightarrow> string \<Rightarrow> exn + parse_result" where
  "urlsplit bracket_ok url0 scheme0 =
    (let url1 = filter (\<lambda>c. \<not> unsafe_url_byte c) (lstrip c0_control_or_space url0);
         scheme1 = filter (\<lambda>c. \<not> unsafe_url_byte c) (strip c0_control_or_space scheme0);
         pre = before_first CHR '':'' url1;
         has_scheme = (CHR '':'' \<in> set url1 \<and> pre \<noteq> [] \<and> ascii_alpha (hd url1)
                       \<and> list_all scheme_char pre);
         scheme2 = (if has_scheme then lower pre else scheme1);
         url2 = (if has_scheme then after_first CHR '':'' url1 else url1);
         has_netloc = (take 2 url2 = ''//'');
         nl = (if has_netloc then fst (splitnetloc url2) else []);
         url3 = (if has_netloc then snd (splitnetloc url2) else url2);
         has_frag = (CHR ''#'' \<in> set url3);
         url4 = (if has_frag then before_first CHR ''#'' url3 else url3);
         frag = (if has_frag then after_first CHR ''#'' url3 else []);
         has_query = (CHR ''?'' \<in> set url4);
         url5 = (if has_query then before_first CHR ''?'' url4 else url4);
         qry = (if has_query then after_first CHR ''?'' url4 else [])
     in if has_netloc \<and> ((CHR ''['' \<in> set nl \<and> CHR '']'' \<notin> set nl)
                          \<or> (CHR '']'' \<in> set nl \<and> CHR ''['' \<notin> set nl))
        then Inl ValueError
        else if has_netloc \<and> CHR ''['' \<in> set nl \<and> CHR '']'' \<in> set nl
                \<and> \<not> bracket_ok (before_first CHR '']'' (after_first CHR ''['' nl))
        then Inl ValueError
        else Inr \<lparr>scheme = scheme2, netloc = nl, path = url5, params = [],
                  query = qry, fragment = frag\<rparr>)"

text \<open>
  \<open>_splitparams\<close>: the parameters start at the first \<open>;\<close> of the last path segment.
  \<open>url.find(';', url.rfind('/'))\<close> searches from the last slash on.
\<close>

definition splitparams :: "string \<Rightarrow> string \<times> string" where
  "splitparams url =
    (if CHR ''/'' \<in> set url
     then (let last_seg = rev (takeWhile (\<lambda>c. c \<noteq> CHR ''/'') (rev url));
               front = take (length url - length last_seg) url
           in if CHR '';'' \<in> set last_seg
              then (front @ before_first CHR '';'' last_seg, after_first CHR '';'' last_seg)
              else (url, []))
     else (before_first CHR '';'' url, after_first CHR '';'' url))"

definition urlparse :: "(string \<Rightarrow> bool) \<Rightarrow> string \<Rightarrow> string \<Rightarrow> exn + parse_result" where
  "urlparse bracket_ok url scheme0 =
    (case urlsplit bracket_ok url scheme0 of
       Inl e \<Rightarrow> Inl e
     | Inr r \<Rightarrow>
         if scheme r \<in> set uses_params \<and> CHR '';'' \<in> set (path r)
         then Inr (r\<lparr>path := fst (splitparams (path r)), params := snd (splitparams (path r))\<rparr>)
         else Inr r)"

definition urlunsplit :: "string \<Rightarrow> string \<Rightarrow> string \<Rightarrow> string \<Rightarrow> string \<Rightarrow> string" where
  "urlunsplit sch nl url qry frag =
    (let url1 = (if nl \<noteq> [] \<or> (sch \<noteq> [] \<and> sch \<in> set uses_netloc) \<or> take 2 url = ''//''
                 then ''//'' @ nl @ (if url \<noteq> [] \<and> take 1 url \<noteq> ''/'' then ''/'' @ url else url)
                 else url);
         url2 = (if sch \<noteq> [] then sch @ '':'' @ url1 else url1);
         url3 = (if qry \<noteq> [] then url2 @ ''?'' @ qry else url2)
     in if frag \<noteq> [] then url3 @ ''#'' @ frag else url3)"

definition urlunparse :: "parse_result \<Rightarrow> string" where
  "urlunparse r =
    urlunsplit (scheme r) (netloc r)
      (if params r \<noteq> [] then path r @ '';'' @ params r else path r)
      (query r) (fragment r)"

text \<open>
  The path resolution of \<open>urljoin\<close>: \<open>segments[1:-1] = filter(None, segments[1:-1])\<close>
  drops the empty segments strictly inside the list, and the loop over the segments
  removes \<open>.\<close> and resolves \<open>..\<close> against what is already there.
\<close>

definition drop_inner_empty :: "string list \<Rightarrow> string list" where
  "drop_inner_empty segs =
    (if length segs < 2 then segs
     else hd segs # filter (\<lambda>s. s \<noteq> []) (butlast (tl segs)) @ [last segs])"

fun resolve_segments :: "string list \<Rightarrow> string list \<Rightarrow> string list" where
  "resolve_segments resolved [] = resolved"
| "resolve_segments resolved (seg # segs) =
     (if seg = ''..'' then resolve_segments (butlast resolved) segs
      else if seg = ''.'' then resolve_segments resolved segs
      else resolve_segments (resolved @ [seg]) segs)"

definition urljoin :: "(string \<Rightarrow> bool) \<Rightarrow> string \<Rightarrow> string \<Rightarrow> exn + string" where
  "urljoin bracket_ok base url =
    (if base = [] then Inr url
     else if url = [] then Inr base
     else case urlparse bracket_ok base [] of
       Inl e \<Rightarrow> Inl e
     | Inr b \<Rightarrow>
        (case urlparse bracket_ok url (scheme b) of
           Inl e \<Rightarrow> Inl e
         | Inr u \<Rightarrow>
            if scheme u \<noteq> scheme b \<or> scheme u \<notin> set uses_relative then Inr url
            else if scheme u \<in> set uses_netloc \<and> netloc u \<noteq> [] then Inr (urlunparse u)
            else
              let nl = (if scheme u \<in> set uses_netloc then netloc b else netloc u) in
              if path u = [] \<and> params u = []
              then Inr (urlunparse (u\<lparr>netloc := nl, path := path b, params := params b,
                          query := (if query u = [] then query b else query u)\<rparr>))
              else
                let base_parts0 = split_on CHR ''/'' (path b);
                    base_parts = (if last base_parts0 \<noteq> [] then butlast base_parts0
                                  else base_parts0);
                    segments = (if take 1 (path u) = ''/'' then split_on CHR ''/'' (path u)
                                else drop_inner_empty (base_parts @ split_on CHR ''/'' (path u)));
                    resolved0 = resolve_segments [] segments;
                    resolved = (if last segments = ''.'' \<or> last segments = ''..''
                                then resolved0 @ ([] # []) else resolved0);
                    joined = join ''/'' resolved
                in Inr (urlunparse (u\<lparr>netloc := nl,
                          path := (if joined = [] then ''/'' else joined)\<rparr>))))"

section \<open>The parsed document\<close>

text \<open>
  A \<open>BeautifulSoup\<close> object is the list of its top-level nodes. The parser itself
  (\<open>BeautifulSoup(content, 'html.parser')\<close>) is a parameter of the model; what the crawler
  does with the tree is modelled here: \<open>find_all\<close> lists the matching elements in document
  order, \<open>get\<close> reads an attribute, \<open>get_text\<close> concatenates the text nodes of a subtree,
  and \<open>decompose\<close> removes an element with everything below it. The attributes of an
  element are a dictionary, given as a list with one entry for each name.
\<close>

datatype node =
    Text string
  | Comment string
  | Element string "(string \<times> string) list" "node list"

type_synonym soup = "node list"

fun find_all_node :: "string list \<Rightarrow> node \<Rightarrow> node list" where
  "find_all_node names (Text t) = []"
| "find_all_node names (Comment t) = []"
| "find_all_node names (Element name attrs children) =
     (if name \<in> set names then [Element name attrs children] else [])
     @ concat (map (find_all_node names) children)"

definition find_all :: "string list \<Rightarrow> soup \<Rightarrow> node list" where
  "find_all names doc = concat (map (find_all_node names) doc)"

fun get :: "node \<Rightarrow> string \<Rightarrow> string option" where
  "get (Element name attrs children) key = map_of attrs key"
| "get (Text t) key = None"
| "get (Comment t) key = None"

fun get_text :: "node \<Rightarrow> string" where
  "get_text (Text t) = t"
| "get_text (Comment t) = []"
| "get_text (Element name attrs children) = concat (map get_text children)"

fun has_name :: "string list \<Rightarrow> node \<Rightarrow> bool" where
  "has_name names (Element name attrs children) = (name \<in> set names)"
| "has_name names (Text t) = False"
| "has_name names (Comment t) = False"

fun decompose_node :: "string list \<Rightarrow> node \<Rightarrow> node list" where
  "decompose_node names (Text t) = [Text t]"
| "decompose_node names (Comment t) = [Comment t]"
| "decompose_node names (Element name attrs children) =
     (if name \<in> set names then []
      else [Element name attrs (concat (map (decompose_node names) children))])"

text \<open>
  \<open>for element in soup.find_all(names): element.decompose()\<close>: every element with one
  of the names is gone from the tree afterwards.
\<close>

definition decompose_all :: "string list \<Rightarrow> soup \<Rightarrow> soup" where
  "decompose_all names doc = concat (map (decompose_node names) doc)"

text \<open>
  \<open>extract_text\<close> changes the tree it is given, so the model returns the text together
  with the tree as the caller sees it afterwards.
\<close>

definition extract_text :: "soup \<Rightarrow> string \<times> soup" where
  "extract_text doc =
    (let doc' = decompose_all [''script'', ''style'', ''nav'', ''header'', ''footer''] doc;
         paragraphs = find_all [''p''] doc';
         text = join '' '' (map (\<lambda>p. strip isspace (get_text p)) paragraphs)
     in (text, doc'))"

section \<open>URL filters\<close>

definition is_valid_url :: "(string \<Rightarrow> bool) \<Rightarrow> string \<Rightarrow> bool" where
  "is_valid_url bracket_ok url =
    (case urlparse bracket_ok url [] of
       Inl e \<Rightarrow> False
     | Inr result \<Rightarrow> scheme result \<noteq> [] \<and> netloc result \<noteq> [])"

definition is_valid_image_url :: "string \<Rightarrow> bool" where
  "is_valid_image_url url =
    list_ex (\<lambda>ext. endswith (lower url) ext) [''.jpg'', ''.jpeg'', ''.png'', ''.gif'', ''.webp'']"

definition is_valid_video_url :: "string \<Rightarrow> bool" where
  "is_valid_video_url url =
    list_ex (\<lambda>platform. contains platform (lower url))
      [''youtube.com'', ''vimeo.com'', ''dailymotion.com'']"

definition skip_domains :: "string list" where
  "skip_domains = [''facebook.com'', ''twitter.com'', ''instagram.com'',
                   ''ads.'', ''analytics.'', ''tracker.'']"

definition should_crawl_url :: "(string \<Rightarrow> bool) \<Rightarrow> string \<Rightarrow> exn + bool" where
  "should_crawl_url bracket_ok url =
    (case urlparse bracket_ok url [] of
       Inl e \<Rightarrow> Inl e
     | Inr parsed \<Rightarrow> Inr (\<not> list_ex (\<lambda>domain. contains domain (netloc parsed)) skip_domains))"

text \<open>
  The loop of \<open>extract_links\<close> over the anchors; a \<open>ValueError\<close> of \<open>urljoin\<close> leaves the
  function at once.
\<close>

fun extract_links_loop ::
  "(string \<Rightarrow> bool) \<Rightarrow> string list \<Rightarrow> string \<Rightarrow> node list \<Rightarrow> string list \<Rightarrow> exn + string list"
where
  "extract_links_loop bracket_ok seen base_url [] links = Inr links"
| "extract_links_loop bracket_ok seen base_url (link # rest) links =
    (case get link ''href'' of
       None \<Rightarrow> extract_links_loop bracket_ok seen base_url rest links
     | Some href \<Rightarrow>
        if href = [] then extract_links_loop bracket_ok seen base_url rest links
        else
          (case urljoin bracket_ok base_url href of
             Inl e \<Rightarrow> Inl e
           | Inr full_url \<Rightarrow>
              if \<not> is_valid_url bracket_ok full_url
              then extract_links_loop bracket_ok seen base_url rest links
              else
                (case should_crawl_url bracket_ok full_url of
                   Inl e \<Rightarrow> Inl e
                 | Inr crawl \<Rightarrow>
                    if crawl \<and> full_url \<notin> set seen
                    then extract_links_loop bracket_ok seen base_url rest (links @ [full_url])
                    else extract_links_loop bracket_ok seen base_url rest links)))"

section \<open>Crawler state\<close>

text \<open>
  \<open>queue.Queue(maxsize)\<close>: a \<open>maxsize\<close> of zero or less means no bound. \<open>put\<close> on a
  full queue does not return (the call waits for a consumer); the model gives \<open>None\<close>
  for that.
\<close>

record 'a queue =
  maxsize :: int
  items :: "'a list"

definition qsize :: "'a queue \<Rightarrow> nat" where
  "qsize q = length (items q)"

definition full :: "'a queue \<Rightarrow> bool" where
  "full q = (0 < maxsize q \<and> maxsize q \<le> int (qsize q))"

definition put :: "'a \<Rightarrow> 'a queue \<Rightarrow> 'a queue option" where
  "put x q = (if full q then None else Some (q\<lparr>items := items q @ [x]\<rparr>))"

type_synonym image = string

record text_record =
  text_url :: string
  text_body :: string
  text_depth :: int

record image_record =
  image_url :: string
  image_data :: image
  image_depth :: int

record stats =
  errors :: nat
  success :: nat

record metrics =
  pages_crawled :: nat
  bytes_downloaded :: nat
  successful_requests :: nat
  failed_requests :: nat
  cached_hits :: nat

datatype level = INFO | WARNING | ERROR

datatype message =
    Crawling_url string int
  | Added_text string nat
  | Added_cached_text string
  | Added_image string nat
  | Error_processing_image string
  | Network_error string
  | Error_crawling string
  | Task_error
  | Crawler_error
  | Active_tasks nat

text \<open>
  The fields of \<open>DFSWebCrawler\<close>, the two tables of its SQLite file (\<open>pages\<close>,
  \<open>visited_urls\<close>; timestamps in microseconds), the image files of the cache directory
  by hash, and two traces of effects: what was logged and how long the tasks slept.
  \<open>visited\<close> is a Python set; it is kept as a list without duplicates, whose order stands
  for the order in which the set is iterated. \<open>tasks\<close> holds the in-flight tasks, each
  the \<open>(url, depth)\<close> it was created with, oldest first.
\<close>

record crawler =
  max_depth :: int
  max_concurrent :: int
  is_running :: bool
  visited :: "string list"
  tasks :: "(string \<times> int) list"
  domain_stats :: "string \<rightharpoonup> stats"
  metrics :: metrics
  text_queue :: "text_record queue"
  image_queue :: "image_record queue"
  pages :: "string \<rightharpoonup> string \<times> int"
  visited_urls :: "string \<rightharpoonup> int"
  image_files :: "string \<rightharpoonup> image"
  logged :: "(level \<times> message) list"
  slept :: "real list"

text \<open>
  What the program does not compute itself: the HTML parser, the MD5 digest, the JPEG
  encoder, the validation of bracketed hosts, and the answers of the network.
  \<open>Body_raises\<close> is a failure while the body is read; \<open>Body\<close> carries the decoded text
  (from \<open>response.text()\<close>, or from the \<open>errors='ignore'\<close> decoding after a
  \<open>UnicodeDecodeError\<close>). An image answer carries the status and what PIL decodes from
  the bytes, \<open>None\<close> when it raises.
\<close>

datatype body = Body string | Body_raises exn

datatype fetch = Get_raises exn | Response int "string option" body

datatype image_fetch = Image_get_raises | Image_response int "image option"

record env =
  BeautifulSoup :: "string \<Rightarrow> soup"
  md5_hexdigest :: "string \<Rightarrow> string"
  save_jpeg :: "image \<Rightarrow> image"
  bracket_ok :: "string \<Rightarrow> bool"
  http_get :: "string \<Rightarrow> fetch"
  image_get :: "string \<Rightarrow> image_fetch"

text \<open>How a piece of the task body ends: it returns, raises, or waits forever in \<open>put\<close>.\<close>

datatype status = Done | Raised exn | Blocked

definition info :: "message \<Rightarrow> crawler \<Rightarrow> crawler" where
  "info m s = s\<lparr>logged := logged s @ [(INFO, m)]\<rparr>"

definition error :: "message \<Rightarrow> crawler \<Rightarrow> crawler" where
  "error m s = s\<lparr>logged := logged s @ [(ERROR, m)]\<rparr>"

section \<open>Cache and origin statistics\<close>

definition save_visited_url :: "int \<Rightarrow> string \<Rightarrow> crawler \<Rightarrow> crawler" where
  "save_visited_url now url s = s\<lparr>visited_urls := (visited_urls s)(url \<mapsto> now)\<rparr>"

definition timedelta_hours :: "int \<Rightarrow> int" where
  "timedelta_hours h = h * 3600 * 1000000"

definition get_cached_page :: "int \<Rightarrow> string \<Rightarrow> crawler \<Rightarrow> string option \<times> crawler" where
  "get_cached_page now url s =
    (case pages s url of
       None \<Rightarrow> (None, s)
     | Some (content, last_crawled) \<Rightarrow>
        if now - last_crawled < timedelta_hours 24
        then (Some content, s\<lparr>metrics := (metrics s)\<lparr>cached_hits := cached_hits (metrics s) + 1\<rparr>\<rparr>)
        else (None, s))"

definition cache_page :: "int \<Rightarrow> string \<Rightarrow> string \<Rightarrow> crawler \<Rightarrow> crawler" where
  "cache_page now url content s = s\<lparr>pages := (pages s)(url \<mapsto> (content, now))\<rparr>"

definition stats_of :: "crawler \<Rightarrow> string \<Rightarrow> stats" where
  "stats_of s domain =
    (case domain_stats s domain of None \<Rightarrow> \<lparr>errors = 0, success = 0\<rparr> | Some st \<Rightarrow> st)"

text \<open>Python's floats are modelled as exact reals.\<close>

definition get_adaptive_delay :: "crawler \<Rightarrow> string \<Rightarrow> real" where
  "get_adaptive_delay s domain =
    (let st = stats_of s domain;
         base_delay = 1.0;
         error_factor = 1 + real (errors st) * 0.5;
         success_factor = max 0.5 (1 - real (success st) * 0.1)
     in base_delay * error_factor * success_factor)"

definition update_domain_stats :: "string \<Rightarrow> bool \<Rightarrow> crawler \<Rightarrow> crawler" where
  "update_domain_stats domain ok s =
    (let st = stats_of s domain in
     if ok
     then s\<lparr>domain_stats := (domain_stats s)(domain \<mapsto> st\<lparr>success := success st + 1\<rparr>),
            metrics := (metrics s)\<lparr>successful_requests := successful_requests (metrics s) + 1\<rparr>\<rparr>
     else s\<lparr>domain_stats := (domain_stats s)(domain \<mapsto> st\<lparr>errors := errors st + 1\<rparr>),
            metrics := (metrics s)\<lparr>failed_requests := failed_requests (metrics s) + 1\<rparr>\<rparr>)"

definition extract_links :: "env \<Rightarrow> crawler \<Rightarrow> soup \<Rightarrow> string \<Rightarrow> exn + string list" where
  "extract_links E s doc base_url =
    extract_links_loop (bracket_ok E) (visited s) base_url (find_all [''a''] doc) []"

section \<open>The crawl task\<close>

text \<open>
  A task is modelled as running in one piece, at one clock reading \<open>now\<close>: no other task
  and no call of \<open>stop\<close> changes the state between its first and its last statement. The
  per-origin lock therefore does not appear; the sleep is recorded in \<open>slept\<close>.
\<close>

text \<open>
  The block that queues a text record, as it stands in \<open>crawl_url_dfs\<close> and again in
  \<open>process_cached_content\<close>; the two differ in the message they log.
\<close>

definition emit_text ::
  "(nat \<Rightarrow> message) \<Rightarrow> string \<Rightarrow> string \<Rightarrow> int \<Rightarrow> crawler \<Rightarrow> status \<times> crawler" where
  "emit_text msg url text depth s =
    (if text \<noteq> [] \<and> 50 < length (split_ws text)
     then if \<not> full (text_queue s)
          then (case put \<lparr>text_url = url, text_body = text, text_depth = depth\<rparr> (text_queue s) of
                  None \<Rightarrow> (Blocked, s)
                | Some q \<Rightarrow> (Done, info (msg (qsize q)) (s\<lparr>text_queue := q\<rparr>)))
          else (Done, s)
     else (Done, s))"

definition process_cached_content ::
  "env \<Rightarrow> string \<Rightarrow> string \<Rightarrow> int \<Rightarrow> crawler \<Rightarrow> status \<times> crawler" where
  "process_cached_content E url content depth s =
    (let doc = BeautifulSoup E content;
         text = fst (extract_text doc)
     in emit_text (\<lambda>n. Added_cached_text url) url text depth s)"

definition process_image :: "env \<Rightarrow> string \<Rightarrow> crawler \<Rightarrow> image option \<times> crawler" where
  "process_image E img_url s =
    (let img_hash = md5_hexdigest E img_url in
     case image_files s img_hash of
       Some cached \<Rightarrow>
         (Some cached, s\<lparr>metrics := (metrics s)\<lparr>cached_hits := cached_hits (metrics s) + 1\<rparr>\<rparr>)
     | None \<Rightarrow>
        (case image_get E img_url of
           Image_get_raises \<Rightarrow> (None, error (Error_processing_image img_url) s)
         | Image_response st decoded \<Rightarrow>
            if st = 200
            then (case decoded of
                    None \<Rightarrow> (None, error (Error_processing_image img_url) s)
                  | Some img \<Rightarrow>
                     (Some img, s\<lparr>image_files := (image_files s)(img_hash \<mapsto> save_jpeg E img)\<rparr>))
            else (None, s)))"

fun process_images_loop ::
  "env \<Rightarrow> string \<Rightarrow> int \<Rightarrow> node list \<Rightarrow> crawler \<Rightarrow> status \<times> crawler" where
  "process_images_loop E base_url depth [] s = (Done, s)"
| "process_images_loop E base_url depth (img # rest) s =
    (if \<not> is_running s then (Done, s)
     else case get img ''src'' of
       None \<Rightarrow> process_images_loop E base_url depth rest s
     | Some src \<Rightarrow>
        if src \<noteq> [] \<and> is_valid_image_url src
        then (case urljoin (bracket_ok E) base_url src of
                Inl e \<Rightarrow> (Raised e, s)
              | Inr img_url \<Rightarrow>
                 (case process_image E img_url s of
                    (None, s1) \<Rightarrow> process_images_loop E base_url depth rest s1
                  | (Some processed_image, s1) \<Rightarrow>
                     if \<not> full (image_queue s1)
                     then (case put \<lparr>image_url = img_url, image_data = processed_image,
                                       image_depth = depth\<rparr> (image_queue s1) of
                             None \<Rightarrow> (Blocked, s1)
                           | Some q \<Rightarrow>
                              process_images_loop E base_url depth rest
                                (info (Added_image img_url (qsize q)) (s1\<lparr>image_queue := q\<rparr>)))
                     else process_images_loop E base_url depth rest s1))
        else process_images_loop E base_url depth rest s)"

definition process_images :: "env \<Rightarrow> soup \<Rightarrow> string \<Rightarrow> int \<Rightarrow> crawler \<Rightarrow> status \<times> crawler" where
  "process_images E doc base_url depth s =
    process_images_loop E base_url depth (find_all [''img''] doc) s"

text \<open>\<open>asyncio.create_task(self.crawl_url_dfs(link, depth + 1))\<close> for each link, while there is room.\<close>

fun schedule_links :: "int \<Rightarrow> string list \<Rightarrow> crawler \<Rightarrow> crawler" where
  "schedule_links depth [] s = s"
| "schedule_links depth (link # links) s =
    (if int (length (tasks s)) < max_concurrent s \<and> is_running s
     then schedule_links depth links (s\<lparr>tasks := tasks s @ [(link, depth + 1)]\<rparr>)
     else schedule_links depth links s)"

text \<open>The task body from the point where the decoded content is in hand.\<close>

definition process_page ::
  "env \<Rightarrow> int \<Rightarrow> string \<Rightarrow> int \<Rightarrow> string \<Rightarrow> string \<Rightarrow> crawler \<Rightarrow> status \<times> crawler" where
  "process_page E now url depth domain content s =
    (let s1 = s\<lparr>metrics := (metrics s)\<lparr>bytes_downloaded := bytes_downloaded (metrics s) + length content,
                                       pages_crawled := pages_crawled (metrics s) + 1\<rparr>\<rparr>;
         s2 = update_domain_stats domain True s1;
         s3 = cache_page now url content s2;
         doc = BeautifulSoup E content;
         text = fst (extract_text doc);
         doc1 = snd (extract_text doc)
     in case emit_text (Added_text url) url text depth s3 of
          (Done, s4) \<Rightarrow>
            (case process_images E doc1 url depth s4 of
               (Done, s5) \<Rightarrow>
                 if depth < max_depth s5
                 then (case extract_links E s5 doc1 url of
                         Inl e \<Rightarrow> (Raised e, s5)
                       | Inr links \<Rightarrow> (Done, schedule_links depth links s5))
                 else (Done, s5)
             | (Raised e, s5) \<Rightarrow> (Raised e, s5)
             | (Blocked, s5) \<Rightarrow> (Blocked, s5))
        | (Raised e, s4) \<Rightarrow> (Raised e, s4)
        | (Blocked, s4) \<Rightarrow> (Blocked, s4))"

text \<open>The adaptive sleep, the request, and the checks of status and content type.\<close>

definition fetch_page ::
  "env \<Rightarrow> int \<Rightarrow> string \<Rightarrow> int \<Rightarrow> string \<Rightarrow> crawler \<Rightarrow> status \<times> crawler" where
  "fetch_page E now url depth domain s =
    (let delay = get_adaptive_delay s domain;
         s1 = s\<lparr>slept := slept s @ [delay]\<rparr>
     in case http_get E url of
          Get_raises e \<Rightarrow> (Raised e, s1)
        | Response st ctype content_body \<Rightarrow>
           if st \<noteq> 200 then (Done, update_domain_stats domain False s1)
           else if \<not> contains ''text/html'' (lower (case ctype of None \<Rightarrow> [] | Some c \<Rightarrow> c))
           then (Done, s1)
           else (case content_body of
                   Body_raises e \<Rightarrow> (Raised e, s1)
                 | Body content \<Rightarrow> process_page E now url depth domain content s1))"

text \<open>
  The two \<open>except\<close> clauses around the request: a client or timeout error counts against
  the origin, any other exception is logged only.
\<close>

definition except_clauses :: "string \<Rightarrow> string \<Rightarrow> status \<times> crawler \<Rightarrow> status \<times> crawler" where
  "except_clauses domain url r =
    (case r of
       (Raised e, s) \<Rightarrow>
         if e = ClientError \<or> e = TimeoutError
         then (Done, error (Network_error url) (update_domain_stats domain False s))
         else (Done, error (Error_crawling url) s)
     | (Done, s) \<Rightarrow> (Done, s)
     | (Blocked, s) \<Rightarrow> (Blocked, s))"

definition crawl_url_dfs :: "env \<Rightarrow> int \<Rightarrow> string \<Rightarrow> int \<Rightarrow> crawler \<Rightarrow> status \<times> crawler" where
  "crawl_url_dfs E now url depth s =
    (if \<not> is_running s \<or> depth > max_depth s \<or> url \<in> set (visited s) then (Done, s)
     else case urlparse (bracket_ok E) url [] of
       Inl e \<Rightarrow> (Raised e, s)
     | Inr parsed \<Rightarrow>
        (let domain = netloc parsed in
         if url \<in> set (visited s) then (Done, s)
         else
           let s1 = info (Crawling_url url depth)
                      (save_visited_url now url (s\<lparr>visited := visited s @ [url]\<rparr>));
               cached_content = fst (get_cached_page now url s1);
               s2 = snd (get_cached_page now url s1)
           in (case cached_content of
                 None \<Rightarrow> except_clauses domain url (fetch_page E now url depth domain s2)
               | Some content \<Rightarrow>
                  if content \<noteq> [] then process_cached_content E url content depth s2
                  else except_clauses domain url (fetch_page E now url depth domain s2))))"

section \<open>The scheduler loop\<close>

text \<open>The rescan of the cached pages after a task has finished.\<close>

fun rescan_links ::
  "env \<Rightarrow> int \<Rightarrow> string list \<Rightarrow> crawler \<Rightarrow> string list \<Rightarrow> (exn + string list) \<times> crawler" where
  "rescan_links E now [] s unvisited_urls = (Inr unvisited_urls, s)"
| "rescan_links E now (visited_url # rest) s unvisited_urls =
    (let cached_content = fst (get_cached_page now visited_url s);
         s1 = snd (get_cached_page now visited_url s)
     in case cached_content of
          None \<Rightarrow> rescan_links E now rest s1 unvisited_urls
        | Some content \<Rightarrow>
           if content = [] then rescan_links E now rest s1 unvisited_urls
           else (case extract_links E s1 (BeautifulSoup E content) visited_url of
                   Inl e \<Rightarrow> (Inl e, s1)
                 | Inr links \<Rightarrow> rescan_links E now rest s1 (unvisited_urls @ links)))"

fun create_tasks :: "string list \<Rightarrow> crawler \<Rightarrow> crawler" where
  "create_tasks [] s = s"
| "create_tasks (url # urls) s =
    (if int (length (tasks s)) \<ge> max_concurrent s then s
     else if url \<notin> set (visited s) \<and> is_running s
          then create_tasks urls (s\<lparr>tasks := tasks s @ [(url, 0)]\<rparr>)
          else create_tasks urls s)"

definition rescan :: "env \<Rightarrow> int \<Rightarrow> crawler \<Rightarrow> status \<times> crawler" where
  "rescan E now s =
    (if int (length (tasks s)) < max_concurrent s \<and> is_running s
     then (case rescan_links E now (visited s) s [] of
             (Inl e, s1) \<Rightarrow> (Raised e, s1)
           | (Inr unvisited_urls, s1) \<Rightarrow> (Done, create_tasks unvisited_urls s1))
     else (Done, s))"

fun create_initial_tasks :: "string list \<Rightarrow> crawler \<Rightarrow> crawler" where
  "create_initial_tasks [] s = s"
| "create_initial_tasks (url # seed_urls) s =
    (if int (length (tasks s)) < max_concurrent s
     then create_initial_tasks seed_urls (s\<lparr>tasks := tasks s @ [(url, 0)]\<rparr>)
     else create_initial_tasks seed_urls s)"

text \<open>
  One pass of the \<open>while\<close> loop under the schedule in which each task runs as one
  piece and the oldest in-flight task is the one that \<open>asyncio.wait\<close> reports done:
  the task runs at time \<open>now\<close>, its done-callback removes it from \<open>tasks\<close>, an
  exception it raised is logged by the loop, and the rescan follows.
\<close>

definition loop_pass :: "env \<Rightarrow> int \<Rightarrow> crawler \<Rightarrow> status \<times> crawler" where
  "loop_pass E now s =
    (case tasks s of
       [] \<Rightarrow> (Done, s)
     | (url, depth) # others \<Rightarrow>
        (case crawl_url_dfs E now url depth s of
           (Blocked, s1) \<Rightarrow> (Blocked, s1)
         | (Raised e, s1) \<Rightarrow>
             (case rescan E now (error Task_error (s1\<lparr>tasks := tl (tasks s1)\<rparr>)) of
                (Done, s2) \<Rightarrow>
                  (Done, if tasks s2 \<noteq> [] then info (Active_tasks (length (tasks s2))) s2 else s2)
              | r \<Rightarrow> r)
         | (Done, s1) \<Rightarrow>
             (case rescan E now (s1\<lparr>tasks := tl (tasks s1)\<rparr>) of
                (Done, s2) \<Rightarrow>
                  (Done, if tasks s2 \<noteq> [] then info (Active_tasks (length (tasks s2))) s2 else s2)
              | r \<Rightarrow> r)))"

text \<open>
  The loop, one clock reading per pass. \<open>None\<close> means that the loop has not ended:
  the readings ran out, or a task waits forever.
\<close>

fun run_loop :: "env \<Rightarrow> int list \<Rightarrow> crawler \<Rightarrow> crawler option" where
  "run_loop E [] s = (if tasks s \<noteq> [] \<and> is_running s then None else Some s)"
| "run_loop E (now # clock) s =
    (if tasks s \<noteq> [] \<and> is_running s
     then (case loop_pass E now s of
             (Done, s1) \<Rightarrow> run_loop E clock s1
           | (Raised e, s1) \<Rightarrow> Some (error Crawler_error s1)
           | (Blocked, s1) \<Rightarrow> None)
     else Some s)"

definition run_crawler :: "env \<Rightarrow> int list \<Rightarrow> string list \<Rightarrow> crawler \<Rightarrow> crawler option" where
  "run_crawler E clock seed_urls s = run_loop E clock (create_initial_tasks seed_urls s)"

section \<open>A crawler after construction\<close>

text \<open>
  The state \<open>__init__\<close> leaves behind on an empty cache directory. The concurrency limit
  and the two queue sizes, which the constructor derives from the machine's processors
  and memory, are parameters.
\<close>

definition new_crawler :: "int \<Rightarrow> int \<Rightarrow> int \<Rightarrow> int \<Rightarrow> crawler" where
  "new_crawler depth_limit concurrent text_maxsize image_maxsize =
    \<lparr>max_depth = depth_limit, max_concurrent = concurrent, is_running = True,
     visited = [], tasks = [], domain_stats = Map.empty,
     metrics = \<lparr>pages_crawled = 0, bytes_downloaded = 0, successful_requests = 0,
                failed_requests = 0, cached_hits = 0\<rparr>,
     text_queue = \<lparr>maxsize = text_maxsize, items = []\<rparr>,
     image_queue = \<lparr>maxsize = image_maxsize, items = []\<rparr>,
     pages = Map.empty, visited_urls = Map.empty, image_files = Map.empty,
     logged = [], slept = []\<rparr>"

section \<open>A small web\<close>

text \<open>
  One seed page with a paragraph of 51 words, one anchor and one image, and the page the
  anchor leads to; the image answers with a JPEG content type, one URL answers 404, and
  every other URL refuses the connection. The parser is given on the two documents only;
  the image bytes are symbolic. Times are in microseconds.
\<close>

definition seed_url :: string where
  "seed_url = ''http://seed.test/''"

definition next_url :: string where
  "next_url = ''http://seed.test/next''"

definition pic_url :: string where
  "pic_url = ''http://seed.test/pic.jpg''"

definition missing_url :: string where
  "missing_url = ''http://seed.test/missing''"

definition seed_html :: string where
  "seed_html = ''<p>'' @ concat (replicate 51 ''w '')
                 @ ''</p><a href=/next>next</a><img src=/pic.jpg>''"

definition seed_doc :: soup where
  "seed_doc = [Element ''p'' [] [Text (concat (replicate 51 ''w ''))],
               Element ''a'' [(''href'', ''/next'')] [Text ''next''],
               Element ''img'' [(''src'', ''/pic.jpg'')] []]"

definition leaf_html :: string where
  "leaf_html = ''<p>leaf</p>''"

definition leaf_doc :: soup where
  "leaf_doc = [Element ''p'' [] [Text ''leaf'']]"

definition demo_env :: env where
  "demo_env = \<lparr>
     BeautifulSoup = (\<lambda>html. if html = seed_html then seed_doc
                             else if html = leaf_html then leaf_doc else []),
     md5_hexdigest = (\<lambda>u. if u = pic_url then ''174a26869c07495555e40dae6397c1cf'' else []),
     save_jpeg = (\<lambda>img. img),
     bracket_ok = (\<lambda>host. True),
     http_get = (\<lambda>u. if u = seed_url
                         then Response 200 (Some ''text/html; charset=utf-8'') (Body seed_html)
                       else if u = next_url
                         then Response 200 (Some ''text/html'') (Body leaf_html)
                       else if u = pic_url
                         then Response 200 (Some ''image/jpeg'') (Body ''pixels'')
                       else if u = missing_url
                         then Response 404 (Some ''text/html'') (Body ''<p>gone</p>'')
                       else Get_raises ClientError),
     image_get = (\<lambda>u. if u = pic_url then Image_response 200 (Some ''pixels'')
                        else Image_get_raises)\<rparr>"

text \<open>A crawler with \<open>max_depth = 0\<close> on an empty cache.\<close>

definition cold_crawler :: crawler where
  "cold_crawler = new_crawler 0 4 1000 500"

text \<open>
  A crawler with \<open>max_depth = 3\<close> whose page table holds the seed page, fetched at time 0,
  and whose only in-flight task is the one for the seed.
\<close>

definition warm_crawler :: crawler where
  "warm_crawler = (cache_page 0 seed_url seed_html (new_crawler 3 4 1000 500))
                    \<lparr>tasks := [(seed_url, 0)]\<rparr>"

text \<open>A crawler whose two queues, of size one, are full.\<close>

definition full_crawler :: crawler where
  "full_crawler = (new_crawler 3 4 1 1)
     \<lparr>tasks := [(seed_url, 0)],
      text_queue := \<lparr>maxsize = 1, items = [\<lparr>text_url = ''http://old.test/'',
                       text_body = fst (extract_text seed_doc), text_depth = 0\<rparr>]\<rparr>,
      image_queue := \<lparr>maxsize = 1, items = [\<lparr>image_url = ''http://old.test/a.png'',
                       image_data = ''pixels'', image_depth = 0\<rparr>]\<rparr>\<rparr>"

section \<open>Relations between the states before and after a step\<close>

text \<open>
  \<open>appended xs ys P\<close>: the list \<open>ys\<close> is \<open>xs\<close> followed by elements that satisfy \<open>P\<close>.
\<close>

definition appended :: "'a list \<Rightarrow> 'a list \<Rightarrow> ('a \<Rightarrow> bool) \<Rightarrow> bool" where
  "appended xs ys P = (take (length xs) ys = xs \<and> list_all P (drop (length xs) ys))"

definition eligible :: "int \<Rightarrow> text_record \<Rightarrow> bool" where
  "eligible depth r = (50 < length (split_ws (text_body r)) \<and> text_depth r = depth)"

text \<open>
  What a task of depth \<open>depth\<close> may do to the state: the limits stay, the queues, the
  log, the task list and the visited list only grow, by elements of the right kind,
  and a queue that is full stays as it is.
\<close>

definition effect :: "int \<Rightarrow> crawler \<Rightarrow> crawler \<Rightarrow> bool" where
  "effect depth s s' =
    (max_depth s' = max_depth s \<and> max_concurrent s' = max_concurrent s
     \<and> is_running s' = is_running s
     \<and> maxsize (text_queue s') = maxsize (text_queue s)
     \<and> maxsize (image_queue s') = maxsize (image_queue s)
     \<and> appended (items (text_queue s)) (items (text_queue s')) (eligible depth)
     \<and> appended (items (image_queue s)) (items (image_queue s')) (\<lambda>r. image_depth r = depth)
     \<and> appended (logged s) (logged s') (\<lambda>e. fst e \<noteq> WARNING)
     \<and> appended (tasks s) (tasks s') (\<lambda>t. snd t = depth + 1)
     \<and> appended (visited s) (visited s') (\<lambda>u. True)
     \<and> (full (text_queue s) \<longrightarrow> items (text_queue s') = items (text_queue s))
     \<and> (full (image_queue s) \<longrightarrow> items (image_queue s') = items (image_queue s)))"

text \<open>Steps that neither sleep nor count an error against any origin.\<close>

definition quiet :: "crawler \<Rightarrow> crawler \<Rightarrow> bool" where
  "quiet s s' =
    (slept s' = slept s \<and> errors \<circ> stats_of s' = errors \<circ> stats_of s
     \<and> failed_requests (metrics s') = failed_requests (metrics s))"

definition floor_kept :: "crawler \<Rightarrow> crawler \<Rightarrow> bool" where
  "floor_kept s s' =
    appended (items (text_queue s)) (items (text_queue s'))
      (\<lambda>r. 50 < length (split_ws (text_body r)))"

section \<open>Properties of the task body and of the scheduler loop\<close>

subsection \<open>Growing lists and the effect of a step\<close>

lemma appended_iff: "appended xs ys P \<longleftrightarrow> (\<exists>new. ys = xs @ new \<and> list_all P new)"
proof
  assume a: "appended xs ys P"
  then have "ys = xs @ drop (length xs) ys"
    by (metis append_take_drop_id appended_def)
  with a show "\<exists>new. ys = xs @ new \<and> list_all P new"
    unfolding appended_def by blast
next
  assume "\<exists>new. ys = xs @ new \<and> list_all P new"
  then show "appended xs ys P" by (auto simp: appended_def)
qed

lemma appended_refl [simp]: "appended xs xs P"
  by (simp add: appended_def)

lemma appended_snoc [simp]: "appended xs (xs @ [x]) P \<longleftrightarrow> P x"
  by (simp add: appended_def)

lemma appended_trans: "appended xs ys P \<Longrightarrow> appended ys zs P \<Longrightarrow> appended xs zs P"
  unfolding appended_iff by auto

lemma appended_mono: "appended xs ys P \<Longrightarrow> (\<And>x. P x \<Longrightarrow> Q x) \<Longrightarrow> appended xs ys Q"
  unfolding appended_def by (auto simp: list_all_iff)

lemma effect_refl [simp]: "effect depth s s"
  by (simp add: effect_def)

lemma effect_trans:
  assumes a: "effect depth s s1" and b: "effect depth s1 s2"
  shows "effect depth s s2"
proof -
  have t: "appended (items (text_queue s)) (items (text_queue s2)) (eligible depth)"
    using a b appended_trans unfolding effect_def by blast
  have i: "appended (items (image_queue s)) (items (image_queue s2)) (\<lambda>r. image_depth r = depth)"
    using a b appended_trans unfolding effect_def by blast
  have l: "appended (logged s) (logged s2) (\<lambda>e. fst e \<noteq> WARNING)"
    using a b appended_trans unfolding effect_def by blast
  have k: "appended (tasks s) (tasks s2) (\<lambda>t. snd t = depth + 1)"
    using a b appended_trans unfolding effect_def by blast
  have v: "appended (visited s) (visited s2) (\<lambda>u. True)"
    using a b appended_trans unfolding effect_def by blast
  have ft: "items (text_queue s2) = items (text_queue s)" if "full (text_queue s)"
  proof -
    have 1: "items (text_queue s1) = items (text_queue s)"
      using a that by (simp add: effect_def)
    have "maxsize (text_queue s1) = maxsize (text_queue s)"
      using a by (simp add: effect_def)
    with 1 that have "full (text_queue s1)" by (simp add: full_def qsize_def)
    with b 1 show ?thesis by (simp add: effect_def)
  qed
  have fi: "items (image_queue s2) = items (image_queue s)" if "full (image_queue s)"
  proof -
    have 1: "items (image_queue s1) = items (image_queue s)"
      using a that by (simp add: effect_def)
    have "maxsize (image_queue s1) = maxsize (image_queue s)"
      using a by (simp add: effect_def)
    with 1 that have "full (image_queue s1)" by (simp add: full_def qsize_def)
    with b 1 show ?thesis by (simp add: effect_def)
  qed
  have c: "max_depth s2 = max_depth s" "max_concurrent s2 = max_concurrent s"
    "is_running s2 = is_running s" "maxsize (text_queue s2) = maxsize (text_queue s)"
    "maxsize (image_queue s2) = maxsize (image_queue s)"
    using a b by (simp_all add: effect_def)
  show ?thesis
    unfolding effect_def using t i l k v ft fi c by blast
qed



text \<open>The operations that only touch fields outside the relation, or only add to the log.\<close>

lemma effect_same:
  "max_depth s' = max_depth s \<Longrightarrow> max_concurrent s' = max_concurrent s \<Longrightarrow>
   is_running s' = is_running s \<Longrightarrow> text_queue s' = text_queue s \<Longrightarrow>
   image_queue s' = image_queue s \<Longrightarrow> logged s' = logged s \<Longrightarrow> tasks s' = tasks s \<Longrightarrow>
   visited s' = visited s \<Longrightarrow> effect depth s s'"
  by (simp add: effect_def)

lemma effect_info [simp]: "effect depth s (info m s)"
  by (simp add: effect_def info_def)

lemma effect_error [simp]: "effect depth s (error m s)"
  by (simp add: effect_def error_def)

lemma effect_update_domain_stats [simp]: "effect depth s (update_domain_stats domain ok s)"
  by (simp add: effect_same update_domain_stats_def Let_def)

lemma effect_cache_page [simp]: "effect depth s (cache_page now url content s)"
  by (simp add: effect_same cache_page_def)

lemma effect_get_cached_page [simp]: "effect depth s (snd (get_cached_page now url s))"
  by (simp add: effect_same get_cached_page_def split: option.splits prod.splits)

lemma effect_emit_text:
  "effect depth s (snd (emit_text msg url text depth s))"
  by (simp add: emit_text_def put_def effect_def info_def eligible_def)

lemma emit_text_returns [simp]: "fst (emit_text msg url text depth s) = Done"
  by (simp add: emit_text_def put_def)

lemma effect_process_image: "effect depth s (snd (process_image E img_url s))"
  by (simp add: process_image_def Let_def effect_same
           split: option.splits image_fetch.splits)

subsection \<open>What the URL functions can raise\<close>

text \<open>The only exception of the modelled \<open>urllib.parse\<close> is \<open>ValueError\<close>.\<close>

lemma raises_ValueError:
  "(if c1 then Inl ValueError else if c2 then Inl ValueError else Inr r) = Inl e \<Longrightarrow> e = ValueError"
  by (simp split: if_splits)

lemma urlsplit_raises: "urlsplit b url sch = Inl e \<Longrightarrow> e = ValueError"
  unfolding urlsplit_def Let_def by (erule raises_ValueError)

lemma urlparse_raises: "urlparse b url sch = Inl e \<Longrightarrow> e = ValueError"
  by (auto simp: urlparse_def dest: urlsplit_raises split: sum.splits if_splits)

lemma urljoin_raises: "urljoin b base url = Inl e \<Longrightarrow> e = ValueError"
  by (auto simp: urljoin_def Let_def dest: urlparse_raises split: sum.splits if_splits)



subsection \<open>Images and links\<close>

text \<open>
  The image loop and the scheduling of links stay within \<open>effect\<close>; the image loop
  never waits in \<open>put\<close>, and what it raises comes from \<open>urljoin\<close>.
\<close>

lemma process_images_loop_effect:
  "effect depth s (snd (process_images_loop E base_url depth imgs s))"
proof (induction imgs arbitrary: s)
  case Nil
  show ?case by simp
next
  case (Cons img rest)
  have IH: "effect depth s (snd (process_images_loop E base_url depth rest s1))"
    if "effect depth s s1" for s1
    using that Cons.IH [of s1] by (rule effect_trans)
  have pi: "effect depth s s1" if "process_image E u s = (r, s1)" for u r s1
    using effect_process_image [of depth s E u] that by simp
  have step: "effect depth s (info m (s1\<lparr>image_queue := (image_queue s1)\<lparr>items :=
                 items (image_queue s1) @ [\<lparr>image_url = u, image_data = im, image_depth = depth\<rparr>]\<rparr>\<rparr>))"
    if "process_image E u s = (Some im, s1)" "\<not> full (image_queue s1)" for u im s1 m
  proof -
    have "effect depth s1 (info m (s1\<lparr>image_queue := (image_queue s1)\<lparr>items :=
                 items (image_queue s1) @ [\<lparr>image_url = u, image_data = im, image_depth = depth\<rparr>]\<rparr>\<rparr>))"
      using that(2) by (simp add: effect_def info_def)
    with pi [OF that(1)] show ?thesis by (rule effect_trans)
  qed
  show ?case
    by (auto simp: put_def qsize_def split: option.splits sum.splits prod.splits intro!: IH step intro: pi)
qed

lemma process_images_loop_status:
  "fst (process_images_loop E base_url depth imgs s) = Done
   \<or> fst (process_images_loop E base_url depth imgs s) = Raised ValueError"
proof (induction imgs arbitrary: s)
  case Nil
  show ?case by simp
next
  case (Cons img rest)
  show ?case
    using Cons.IH
    by (auto simp: put_def split: option.splits sum.splits prod.splits dest: urljoin_raises)
qed

lemma schedule_links_effect: "effect depth s (schedule_links depth links s)"
proof (induction links arbitrary: s)
  case Nil
  show ?case by simp
next
  case (Cons link links)
  have 1: "effect depth s (s\<lparr>tasks := tasks s @ [(link, depth + 1)]\<rparr>)"
    by (simp add: effect_def)
  have 2: "effect depth (s\<lparr>tasks := tasks s @ [(link, depth + 1)]\<rparr>)
             (schedule_links depth links (s\<lparr>tasks := tasks s @ [(link, depth + 1)]\<rparr>))"
    by (rule Cons.IH)
  show ?case
    using effect_trans [OF 1 2] Cons.IH [of s] by simp
qed

lemma extract_links_loop_raises:
  "extract_links_loop b seen base_url anchors links = Inl e \<Longrightarrow> e = ValueError"
proof (induction anchors arbitrary: links)
  case Nil
  then show ?case by simp
next
  case (Cons a anchors)
  then show ?case
    by (auto simp: should_crawl_url_def split: option.splits sum.splits if_splits
             dest: urljoin_raises urlparse_raises)
qed

lemma extract_links_raises: "extract_links E s doc base_url = Inl e \<Longrightarrow> e = ValueError"
  unfolding extract_links_def by (rule extract_links_loop_raises)

lemma effect_process_cached_content:
  "effect depth s (snd (process_cached_content E url content depth s))"
  unfolding process_cached_content_def Let_def by (rule effect_emit_text)

lemma process_cached_content_returns:
  "fst (process_cached_content E url content depth s) = Done"
  unfolding process_cached_content_def Let_def by simp



subsection \<open>The task body\<close>

text \<open>
  \<open>process_page\<close> taken apart: the state after the bookkeeping, the text record, the
  images, and then the links.
\<close>

lemma process_page_cases:
  obtains s3 s4 st5 s5 where
    "effect depth s s3" "emit_text (Added_text url) url (fst (extract_text (BeautifulSoup E content))) depth s3 = (Done, s4)"
    "process_images E (snd (extract_text (BeautifulSoup E content))) url depth s4 = (st5, s5)"
    "effect depth s s5"
    "st5 = Done \<or> st5 = Raised ValueError"
    "process_page E now url depth domain content s =
       (case st5 of
          Done \<Rightarrow> if depth < max_depth s5
                   then (case extract_links E s5 (snd (extract_text (BeautifulSoup E content))) url of
                           Inl e \<Rightarrow> (Raised e, s5)
                         | Inr links \<Rightarrow> (Done, schedule_links depth links s5))
                   else (Done, s5)
        | Raised e \<Rightarrow> (Raised e, s5)
        | Blocked \<Rightarrow> (Blocked, s5))"
proof -
  define s3 where "s3 = cache_page now url content (update_domain_stats domain True
      (s\<lparr>metrics := (metrics s)\<lparr>bytes_downloaded := bytes_downloaded (metrics s) + length content,
                                  pages_crawled := pages_crawled (metrics s) + 1\<rparr>\<rparr>))"
  define ptext where "ptext = fst (extract_text (BeautifulSoup E content))"
  define doc1 where "doc1 = snd (extract_text (BeautifulSoup E content))"
  define s4 where "s4 = snd (emit_text (Added_text url) url ptext depth s3)"
  define st5 where "st5 = fst (process_images E doc1 url depth s4)"
  define s5 where "s5 = snd (process_images E doc1 url depth s4)"
  have e1: "effect depth s (s\<lparr>metrics := (metrics s)\<lparr>bytes_downloaded := bytes_downloaded (metrics s) + length content,
                                  pages_crawled := pages_crawled (metrics s) + 1\<rparr>\<rparr>)"
    by (simp add: effect_same)
  have e3: "effect depth s s3"
    unfolding s3_def
    by (rule effect_trans [OF e1], rule effect_trans [OF effect_update_domain_stats], rule effect_cache_page)
  have emit: "emit_text (Added_text url) url ptext depth s3 = (Done, s4)"
    unfolding s4_def using emit_text_returns [of "Added_text url" url ptext depth s3]
    by (cases "emit_text (Added_text url) url ptext depth s3") simp
  have e4: "effect depth s3 s4" unfolding s4_def by (rule effect_emit_text)
  have pi: "process_images E doc1 url depth s4 = (st5, s5)"
    by (simp add: st5_def s5_def)
  have e5: "effect depth s4 s5"
    unfolding s5_def process_images_def by (rule process_images_loop_effect)
  have e: "effect depth s s5"
    by (rule effect_trans [OF e3], rule effect_trans [OF e4], rule e5)
  have st: "st5 = Done \<or> st5 = Raised ValueError"
    unfolding st5_def process_images_def by (rule process_images_loop_status)
  have eq: "process_page E now url depth domain content s =
       (case st5 of
          Done \<Rightarrow> if depth < max_depth s5
                   then (case extract_links E s5 doc1 url of
                           Inl e \<Rightarrow> (Raised e, s5)
                         | Inr links \<Rightarrow> (Done, schedule_links depth links s5))
                   else (Done, s5)
        | Raised e \<Rightarrow> (Raised e, s5)
        | Blocked \<Rightarrow> (Blocked, s5))"
    apply (simp only: process_page_def Let_def emit [unfolded s3_def ptext_def]
             pi [unfolded doc1_def] doc1_def prod.case status.case)
    done
  show ?thesis
    using that [OF e3 emit [unfolded ptext_def] pi [unfolded doc1_def] e st eq [unfolded doc1_def]] .
qed

lemma process_page_effect:
  "effect depth s (snd (process_page E now url depth domain content s))"
proof (rule process_page_cases [of depth s url E content now domain], goal_cases)
  case (1 s3 s4 st5 s5)
  have "effect depth s (schedule_links depth links s5)" for links
    using 1(4) schedule_links_effect by (rule effect_trans)
  then show ?case
    using 1(4,5) unfolding 1(6) by (auto split: sum.splits)
qed

lemma process_page_status:
  "fst (process_page E now url depth domain content s) = Done
   \<or> fst (process_page E now url depth domain content s) = Raised ValueError"
proof (rule process_page_cases [of depth s url E content now domain], goal_cases)
  case (1 s3 s4 st5 s5)
  show ?case
    using 1(5) unfolding 1(6) by (auto split: sum.splits dest: extract_links_raises)
qed



lemma fetch_page_effect: "effect depth s (snd (fetch_page E now url depth domain s))"
proof -
  have 1: "effect depth s (s\<lparr>slept := slept s @ [get_adaptive_delay s domain]\<rparr>)"
    by (simp add: effect_same)
  have 2: "effect depth s (update_domain_stats domain False (s\<lparr>slept := slept s @ [get_adaptive_delay s domain]\<rparr>))"
    using 1 effect_update_domain_stats by (rule effect_trans)
  have 3: "effect depth s (snd (process_page E now url depth domain content
              (s\<lparr>slept := slept s @ [get_adaptive_delay s domain]\<rparr>)))" for content
    using 1 process_page_effect by (rule effect_trans)
  show ?thesis
    using 1 2 3 by (simp add: fetch_page_def Let_def split: fetch.splits body.splits)
qed

lemma fetch_page_status: "fst (fetch_page E now url depth domain s) \<noteq> Blocked"
proof -
  have "fst (process_page E now url depth domain content s1) \<noteq> Blocked" for content s1
    using process_page_status [of E now url depth domain content s1] by auto
  then show ?thesis
    by (simp add: fetch_page_def Let_def split: fetch.splits body.splits)
qed

lemma except_clauses_effect:
  "effect depth s (snd r) \<Longrightarrow> effect depth s (snd (except_clauses domain url r))"
proof -
  assume a: "effect depth s (snd r)"
  have 1: "effect depth s (error m (snd r))" for m
    using a effect_error by (rule effect_trans)
  have 2: "effect depth s (error m (update_domain_stats domain False (snd r)))" for m
    by (rule effect_trans [OF a], rule effect_trans [OF effect_update_domain_stats], rule effect_error)
  show ?thesis
    using a 1 2 by (cases r) (auto simp: except_clauses_def split: status.splits)
qed

lemma except_clauses_status:
  "fst r \<noteq> Blocked \<Longrightarrow> fst (except_clauses domain url r) = Done"
  by (cases r) (auto simp: except_clauses_def split: status.splits)

lemma crawl_url_dfs_effect: "effect depth s (snd (crawl_url_dfs E now url depth s))"
proof (cases "\<not> is_running s \<or> depth > max_depth s \<or> url \<in> set (visited s)")
  case True
  then show ?thesis by (auto simp add: crawl_url_dfs_def)
next
  case False
  show ?thesis
  proof (cases "urlparse (bracket_ok E) url []")
    case (Inl e)
    with False show ?thesis by (simp add: crawl_url_dfs_def)
  next
    case (Inr parsed)
    define s1 where "s1 = info (Crawling_url url depth)
                            (save_visited_url now url (s\<lparr>visited := visited s @ [url]\<rparr>))"
    define s2 where "s2 = snd (get_cached_page now url s1)"
    have e1: "effect depth s s1"
      by (simp add: s1_def effect_def info_def save_visited_url_def)
    have e2: "effect depth s s2"
      unfolding s2_def using e1 effect_get_cached_page by (rule effect_trans)
    have f: "effect depth s (snd (except_clauses (netloc parsed) url
                                   (fetch_page E now url depth (netloc parsed) s2)))"
      by (rule except_clauses_effect, rule effect_trans [OF e2], rule fetch_page_effect)
    have c: "effect depth s (snd (process_cached_content E url content depth s2))" for content
      using e2 effect_process_cached_content by (rule effect_trans)
    show ?thesis
      using False Inr f [unfolded s2_def s1_def] c [unfolded s2_def s1_def]
      by (simp add: crawl_url_dfs_def Let_def split: option.splits)
  qed
qed

lemma crawl_url_dfs_status:
  "fst (crawl_url_dfs E now url depth s) = Done
   \<or> fst (crawl_url_dfs E now url depth s) = Raised ValueError"
  by (auto simp: crawl_url_dfs_def Let_def except_clauses_status fetch_page_status
                 process_cached_content_returns
           split: sum.splits option.splits dest: urlparse_raises)



subsection \<open>Steps without sleep and without error count\<close>

lemma quiet_refl [simp]: "quiet s s"
  by (simp add: quiet_def)

lemma quiet_trans: "quiet s s1 \<Longrightarrow> quiet s1 s2 \<Longrightarrow> quiet s s2"
  by (simp add: quiet_def)

lemma quiet_same:
  "slept s' = slept s \<Longrightarrow> domain_stats s' = domain_stats s \<Longrightarrow>
   failed_requests (metrics s') = failed_requests (metrics s) \<Longrightarrow> quiet s s'"
  by (simp add: quiet_def stats_of_def fun_eq_iff)

lemma quiet_success: "quiet s (update_domain_stats domain True s)"
  by (simp add: quiet_def update_domain_stats_def Let_def stats_of_def fun_eq_iff)

lemma quiet_emit_text: "quiet s (snd (emit_text msg url text depth s))"
  by (simp add: emit_text_def put_def info_def quiet_same)

lemma quiet_process_image: "quiet s (snd (process_image E img_url s))"
  by (simp add: process_image_def Let_def error_def quiet_same
           split: option.splits image_fetch.splits)

lemma quiet_process_images_loop:
  "quiet s (snd (process_images_loop E base_url depth imgs s))"
proof (induction imgs arbitrary: s)
  case Nil
  show ?case by simp
next
  case (Cons img rest)
  have IH: "quiet s (snd (process_images_loop E base_url depth rest s1))" if "quiet s s1" for s1
    using that Cons.IH [of s1] by (rule quiet_trans)
  have pi: "quiet s s1" if "process_image E u s = (r, s1)" for u r s1
    using quiet_process_image [of s E u] that by simp
  have step: "quiet s (info m (s1\<lparr>image_queue := q\<rparr>))"
    if "process_image E u s = (r, s1)" for u r s1 m q
  proof -
    have "quiet s1 (info m (s1\<lparr>image_queue := q\<rparr>))"
      by (simp add: quiet_same info_def)
    with pi [OF that] show ?thesis by (rule quiet_trans)
  qed
  show ?case
    by (auto simp: put_def split: option.splits sum.splits prod.splits intro!: IH step intro: pi)
qed

lemma quiet_schedule_links: "quiet s (schedule_links depth links s)"
proof (induction links arbitrary: s)
  case Nil
  show ?case by simp
next
  case (Cons link links)
  have 1: "quiet s (s\<lparr>tasks := tasks s @ [(link, depth + 1)]\<rparr>)"
    by (simp add: quiet_same)
  have 2: "quiet (s\<lparr>tasks := tasks s @ [(link, depth + 1)]\<rparr>)
             (schedule_links depth links (s\<lparr>tasks := tasks s @ [(link, depth + 1)]\<rparr>))"
    by (rule Cons.IH)
  show ?case
    using quiet_trans [OF 1 2] Cons.IH [of s] by simp
qed

lemma quiet_process_page:
  "quiet s (snd (process_page E now url depth domain content s))"
proof -
  define s3 where "s3 = cache_page now url content (update_domain_stats domain True
      (s\<lparr>metrics := (metrics s)\<lparr>bytes_downloaded := bytes_downloaded (metrics s) + length content,
                                  pages_crawled := pages_crawled (metrics s) + 1\<rparr>\<rparr>))"
  define s4 where "s4 = snd (emit_text (Added_text url) url (fst (extract_text (BeautifulSoup E content))) depth s3)"
  define r5 where "r5 = process_images E (snd (extract_text (BeautifulSoup E content))) url depth s4"
  have q1: "quiet s (s\<lparr>metrics := (metrics s)\<lparr>bytes_downloaded := bytes_downloaded (metrics s) + length content,
                                  pages_crawled := pages_crawled (metrics s) + 1\<rparr>\<rparr>)"
    by (simp add: quiet_same)
  have q2: "quiet s1 (cache_page now url content s1)" for s1
    by (simp add: quiet_same cache_page_def)
  have q3: "quiet s s3"
    unfolding s3_def by (rule quiet_trans [OF q1], rule quiet_trans [OF quiet_success], rule q2)
  have q4: "quiet s s4"
    unfolding s4_def using q3 quiet_emit_text by (rule quiet_trans)
  have q5: "quiet s (snd r5)"
    unfolding r5_def process_images_def using q4 quiet_process_images_loop by (rule quiet_trans)
  have q6: "quiet s (schedule_links depth links (snd r5))" for links
    using q5 quiet_schedule_links by (rule quiet_trans)
  have emit: "emit_text (Added_text url) url (fst (extract_text (BeautifulSoup E content))) depth s3 = (Done, s4)"
    unfolding s4_def
    using emit_text_returns [of "Added_text url" url "fst (extract_text (BeautifulSoup E content))" depth s3]
    by (cases "emit_text (Added_text url) url (fst (extract_text (BeautifulSoup E content))) depth s3") simp
  have eq: "process_page E now url depth domain content s =
       (case r5 of
          (Done, s5) \<Rightarrow> if depth < max_depth s5
                   then (case extract_links E s5 (snd (extract_text (BeautifulSoup E content))) url of
                           Inl e \<Rightarrow> (Raised e, s5)
                         | Inr links \<Rightarrow> (Done, schedule_links depth links s5))
                   else (Done, s5)
        | (Raised e, s5) \<Rightarrow> (Raised e, s5)
        | (Blocked, s5) \<Rightarrow> (Blocked, s5))"
    by (simp only: process_page_def Let_def emit [unfolded s3_def] r5_def prod.case status.case)
  show ?thesis
    unfolding eq using q5 q6 by (cases r5) (auto split: status.splits sum.splits)
qed

subsection \<open>The rescan\<close>

text \<open>
  The rescan changes the cache-hit counter and adds tasks of depth 0; nothing else.
\<close>

lemma get_cached_page_metrics:
  "\<exists>m. snd (get_cached_page now url s) = s\<lparr>metrics := m\<rparr>"
proof (cases "fst (get_cached_page now url s)")
  case None
  then have "snd (get_cached_page now url s) = s\<lparr>metrics := metrics s\<rparr>"
    by (auto simp: get_cached_page_def split: option.splits prod.splits if_splits)
  then show ?thesis by blast
next
  case (Some c)
  then show ?thesis
    by (auto simp: get_cached_page_def split: option.splits prod.splits if_splits)
qed

lemma rescan_links_metrics:
  "\<exists>m. snd (rescan_links E now urls s acc) = s\<lparr>metrics := m\<rparr>"
proof (induction urls arbitrary: s acc)
  case Nil
  have "s = s\<lparr>metrics := metrics s\<rparr>" by simp
  then show ?case by (metis rescan_links.simps(1) snd_conv)
next
  case (Cons u urls)
  obtain m1 where m1: "snd (get_cached_page now u s) = s\<lparr>metrics := m1\<rparr>"
    using get_cached_page_metrics by blast
  have IH: "\<exists>m. snd (rescan_links E now urls (s\<lparr>metrics := m1\<rparr>) acc') = s\<lparr>metrics := m\<rparr>" for acc'
    using Cons.IH [of "s\<lparr>metrics := m1\<rparr>" acc'] by auto
  show ?case
    using IH m1 by (auto simp: Let_def split: option.splits sum.splits)
qed

lemma create_tasks_tasks:
  "\<exists>new. create_tasks urls s = s\<lparr>tasks := tasks s @ new\<rparr> \<and> (\<forall>t\<in>set new. snd t = 0)"
proof (induction urls arbitrary: s)
  case Nil
  have "s = s\<lparr>tasks := tasks s @ []\<rparr>" by simp
  then show ?case by (metis create_tasks.simps(1) empty_iff list.set(1))
next
  case (Cons u urls)
  have keep: "\<exists>new. s = s\<lparr>tasks := tasks s @ new\<rparr> \<and> (\<forall>t\<in>set new. snd t = 0)"
    by (rule exI [of _ "[]"]) simp
  obtain new where new:
    "create_tasks urls (s\<lparr>tasks := tasks s @ [(u, 0)]\<rparr>)
       = s\<lparr>tasks := tasks s @ [(u, 0)]\<rparr>\<lparr>tasks := tasks (s\<lparr>tasks := tasks s @ [(u, 0)]\<rparr>) @ new\<rparr>"
    "\<forall>t\<in>set new. snd t = 0"
    using Cons.IH [of "s\<lparr>tasks := tasks s @ [(u, 0)]\<rparr>"] by blast
  have add: "\<exists>new'. create_tasks urls (s\<lparr>tasks := tasks s @ [(u, 0)]\<rparr>) = s\<lparr>tasks := tasks s @ new'\<rparr>
               \<and> (\<forall>t\<in>set new'. snd t = 0)"
    by (rule exI [of _ "(u, 0) # new"]) (simp add: new)
  show ?case
    using keep add Cons.IH [of s] by simp
qed



lemma rescan_shape:
  "\<exists>m new. snd (rescan E now s) = s\<lparr>tasks := tasks s @ new, metrics := m\<rparr>
            \<and> (\<forall>t\<in>set new. snd t = 0)"
proof -
  have keep: "\<exists>m new. s1 = s1\<lparr>tasks := tasks s1 @ new, metrics := m\<rparr> \<and> (\<forall>t\<in>set new. snd t = 0)" for s1 :: crawler
    by (rule exI [of _ "metrics s1"], rule exI [of _ "[]"]) simp
  obtain m where m: "snd (rescan_links E now (visited s) s []) = s\<lparr>metrics := m\<rparr>"
    using rescan_links_metrics by blast
  have only_metrics: "\<exists>m' new. s\<lparr>metrics := m\<rparr> = s\<lparr>tasks := tasks s @ new, metrics := m'\<rparr>
                       \<and> (\<forall>t\<in>set new. snd t = 0)"
    by (rule exI [of _ m], rule exI [of _ "[]"]) simp
  have created: "\<exists>m' new. create_tasks urls (s\<lparr>metrics := m\<rparr>) = s\<lparr>tasks := tasks s @ new, metrics := m'\<rparr>
                  \<and> (\<forall>t\<in>set new. snd t = 0)" for urls
  proof -
    obtain new where "create_tasks urls (s\<lparr>metrics := m\<rparr>)
                        = s\<lparr>metrics := m\<rparr>\<lparr>tasks := tasks (s\<lparr>metrics := m\<rparr>) @ new\<rparr>"
      "\<forall>t\<in>set new. snd t = 0"
      using create_tasks_tasks by blast
    then show ?thesis
      by (intro exI [of _ m] exI [of _ new]) simp
  qed
  show ?thesis
  proof (cases "int (length (tasks s)) < max_concurrent s \<and> is_running s")
    case False
    then have "rescan E now s = (Done, s)" by (auto simp: rescan_def)
    with keep [of s] show ?thesis by simp
  next
    case True
    obtain r s1 where r: "rescan_links E now (visited s) s [] = (r, s1)" by fastforce
    with m have s1: "s1 = s\<lparr>metrics := m\<rparr>" by simp
    show ?thesis
    proof (cases r)
      case (Inl e)
      with True r s1 only_metrics show ?thesis by (simp add: rescan_def)
    next
      case (Inr urls)
      with True r s1 created [of urls] show ?thesis by (simp add: rescan_def)
    qed
  qed
qed

lemma rescan_text_queue: "text_queue (snd (rescan E now s)) = text_queue s"
  using rescan_shape [of E now s] by auto

lemma rescan_status: "fst (rescan E now s) \<noteq> Blocked"
  by (auto simp: rescan_def split: prod.splits sum.splits)

subsection \<open>The text queue over a whole run\<close>

lemma floor_kept_refl [simp]: "floor_kept s s"
  by (simp add: floor_kept_def)

lemma floor_kept_trans: "floor_kept s s1 \<Longrightarrow> floor_kept s1 s2 \<Longrightarrow> floor_kept s s2"
  unfolding floor_kept_def by (rule appended_trans)

lemma floor_kept_same: "text_queue s' = text_queue s \<Longrightarrow> floor_kept s s'"
  by (simp add: floor_kept_def)

lemma floor_kept_task: "floor_kept s (snd (crawl_url_dfs E now url depth s))"
proof -
  have "appended (items (text_queue s)) (items (text_queue (snd (crawl_url_dfs E now url depth s))))
          (eligible depth)"
    using crawl_url_dfs_effect [of depth s E now url] by (simp add: effect_def)
  then show ?thesis
    unfolding floor_kept_def by (rule appended_mono) (simp add: eligible_def)
qed

lemma floor_kept_loop_pass: "floor_kept s (snd (loop_pass E now s))"
proof (cases "tasks s")
  case Nil
  then show ?thesis by (simp add: loop_pass_def)
next
  case (Cons t others)
  obtain url depth where t: "t = (url, depth)" by (cases t)
  obtain st s1 where c: "crawl_url_dfs E now url depth s = (st, s1)" by fastforce
  have k1: "floor_kept s s1" using floor_kept_task [of s E now url depth] c by simp
  have k2: "floor_kept s (snd (rescan E now s2))" if "text_queue s2 = text_queue s1" for s2
  proof -
    have "floor_kept s1 (snd (rescan E now s2))"
      using that by (simp add: floor_kept_same rescan_text_queue)
    with k1 show ?thesis by (rule floor_kept_trans)
  qed
  have k3: "floor_kept s (info m (snd (rescan E now s2)))" if "text_queue s2 = text_queue s1" for s2 m
    by (rule floor_kept_trans [OF k2 [OF that]]) (simp add: floor_kept_same info_def)
  have k4: "floor_kept s (snd (rescan E now (s1\<lparr>tasks := tl (tasks s1)\<rparr>)))"
    by (rule k2) simp
  have k5: "floor_kept s (snd (rescan E now (error Task_error (s1\<lparr>tasks := tl (tasks s1)\<rparr>))))"
    by (rule k2) (simp add: error_def)
  have k6: "floor_kept s (info m (snd (rescan E now (s1\<lparr>tasks := tl (tasks s1)\<rparr>))))" for m
    by (rule k3) simp
  have k7: "floor_kept s (info m (snd (rescan E now (error Task_error (s1\<lparr>tasks := tl (tasks s1)\<rparr>)))))" for m
    by (rule k3) (simp add: error_def)
  show ?thesis
  proof (cases st)
    case Done
    obtain st2 s2 where r: "rescan E now (s1\<lparr>tasks := tl (tasks s1)\<rparr>) = (st2, s2)" by fastforce
    show ?thesis
      using Cons t c Done r k4 k6 by (cases st2) (auto simp: loop_pass_def)
  next
    case (Raised e)
    obtain st2 s2 where r: "rescan E now (error Task_error (s1\<lparr>tasks := tl (tasks s1)\<rparr>)) = (st2, s2)"
      by fastforce
    show ?thesis
      using Cons t c Raised r k5 k7 by (cases st2) (auto simp: loop_pass_def)
  next
    case Blocked
    with Cons t c k1 show ?thesis by (simp add: loop_pass_def)
  qed
qed

lemma floor_kept_run_loop: "run_loop E clock s = Some s' \<Longrightarrow> floor_kept s s'"
proof (induction clock arbitrary: s)
  case Nil
  then show ?case by (simp split: if_splits)
next
  case (Cons now clock)
  show ?case
  proof (cases "tasks s \<noteq> [] \<and> is_running s")
    case False
    with Cons.prems show ?thesis by auto
  next
    case True
    obtain st s1 where p: "loop_pass E now s = (st, s1)" by fastforce
    have k: "floor_kept s s1" using floor_kept_loop_pass [of s E now] p by simp
    show ?thesis
    proof (cases st)
      case Done
      with True p Cons.prems have "run_loop E clock s1 = Some s'" by simp
      then have "floor_kept s1 s'" by (rule Cons.IH)
      with k show ?thesis by (rule floor_kept_trans)
    next
      case (Raised e)
      with True p Cons.prems have "s' = error Crawler_error s1" by simp
      then have "floor_kept s1 s'" by (simp add: floor_kept_same error_def)
      with k show ?thesis by (rule floor_kept_trans)
    next
      case Blocked
      with True p Cons.prems show ?thesis by simp
    qed
  qed
qed

lemma create_initial_tasks_text_queue:
  "text_queue (create_initial_tasks seed_urls s) = text_queue s"
  by (induction seed_urls arbitrary: s) simp_all

lemma floor_kept_run_crawler: "run_crawler E clock seed_urls s = Some s' \<Longrightarrow> floor_kept s s'"
proof -
  assume "run_crawler E clock seed_urls s = Some s'"
  then have "floor_kept (create_initial_tasks seed_urls s) s'"
    unfolding run_crawler_def by (rule floor_kept_run_loop)
  then show ?thesis
    by (simp add: floor_kept_def create_initial_tasks_text_queue)
qed

text \<open>No pass of the loop waits in \<open>put\<close>.\<close>

lemma loop_pass_status: "fst (loop_pass E now s) \<noteq> Blocked"
proof (cases "tasks s")
  case Nil
  then show ?thesis by (simp add: loop_pass_def)
next
  case (Cons t others)
  obtain url depth where t: "t = (url, depth)" by (cases t)
  obtain st s1 where c: "crawl_url_dfs E now url depth s = (st, s1)" by fastforce
  have st: "st = Done \<or> st = Raised ValueError"
    using crawl_url_dfs_status [of E now url depth s] c by simp
  have r: "fst (case rescan E now s2 of
                  (Done, s3) \<Rightarrow>
                    (Done, if tasks s3 \<noteq> [] then info (Active_tasks (length (tasks s3))) s3 else s3)
                | r \<Rightarrow> r) \<noteq> Blocked" for s2
    using rescan_status [of E now s2]
    by (cases "rescan E now s2") (auto split: status.splits)
  show ?thesis
    using st Cons t c r by (auto simp: loop_pass_def)
qed

subsection \<open>Further properties used below\<close>

lemma appended_iff_ex: "appended xs ys P \<longleftrightarrow> (\<exists>new. ys = xs @ new \<and> (\<forall>x\<in>set new. P x))"
  by (simp add: appended_iff list_all_iff)

lemma queue_eqI: "maxsize q' = maxsize q \<Longrightarrow> items q' = items q \<Longrightarrow> q' = (q :: 'a queue)"
  by simp

lemma adaptive_delay_unfold:
  "get_adaptive_delay s d =
     (1 + 0.5 * real (errors (stats_of s d))) * max 0.5 (1 - 0.1 * real (success (stats_of s d)))"
  by (simp add: get_adaptive_delay_def Let_def mult.commute)

lemma fetch_page_sleeps:
  "slept (snd (fetch_page E now url depth domain s)) = slept s @ [get_adaptive_delay s domain]"
proof -
  have "slept (snd (process_page E now url depth domain content s1)) = slept s1" for content s1
    using quiet_process_page [of s1 E now url depth domain content] by (simp add: quiet_def)
  then show ?thesis
    by (simp add: fetch_page_def Let_def update_domain_stats_def split: fetch.splits body.splits)
qed

lemma extract_links_loop_set:
  "extract_links_loop b seen base_url anchors links = Inr result \<Longrightarrow>
   set result = set links \<union>
     {u. \<exists>a\<in>set anchors. \<exists>href. get a ''href'' = Some href \<and> href \<noteq> []
           \<and> urljoin b base_url href = Inr u \<and> is_valid_url b u
           \<and> should_crawl_url b u = Inr True \<and> u \<notin> set seen}"
proof (induction anchors arbitrary: links)
  case Nil
  then show ?case by simp
next
  case (Cons a anchors)
  let ?keep = "\<lambda>a u. \<exists>href. get a ''href'' = Some href \<and> href \<noteq> []
           \<and> urljoin b base_url href = Inr u \<and> is_valid_url b u
           \<and> should_crawl_url b u = Inr True \<and> u \<notin> set seen"
  have split: "{u. \<exists>x\<in>set (a # anchors). ?keep x u} = {u. ?keep a u} \<union> {u. \<exists>x\<in>set anchors. ?keep x u}"
    by auto
  show ?case
  proof (cases "\<exists>href u. get a ''href'' = Some href \<and> href \<noteq> [] \<and> urljoin b base_url href = Inr u
                   \<and> is_valid_url b u \<and> should_crawl_url b u = Inr True \<and> u \<notin> set seen")
    case True
    then obtain href u where k: "get a ''href'' = Some href" "href \<noteq> []"
      "urljoin b base_url href = Inr u" "is_valid_url b u" "should_crawl_url b u = Inr True"
      "u \<notin> set seen" by blast
    then have "extract_links_loop b seen base_url (a # anchors) links
               = extract_links_loop b seen base_url anchors (links @ [u])"
      by simp
    with Cons.prems have "set result = set (links @ [u]) \<union> {u. \<exists>x\<in>set anchors. ?keep x u}"
      using Cons.IH by simp
    moreover have "{u'. ?keep a u'} = {u}" using k by auto
    ultimately show ?thesis unfolding split by auto
  next
    case False
    then have none: "{u. ?keep a u} = {}" by blast
    have "extract_links_loop b seen base_url (a # anchors) links
               = extract_links_loop b seen base_url anchors links"
      using False Cons.prems
      by (auto split: option.splits sum.splits if_splits)
    with Cons.prems have "set result = set links \<union> {u. \<exists>x\<in>set anchors. ?keep x u}"
      using Cons.IH by simp
    then show ?thesis unfolding split none by simp
  qed
qed

lemma stats_of_same: "domain_stats s' = domain_stats s \<Longrightarrow> stats_of s' = stats_of s"
  by (simp add: stats_of_def fun_eq_iff)

lemma errors_counted:
  "errors (stats_of (update_domain_stats domain False s) d)
     = errors (stats_of s d) + (if d = domain then 1 else 0)"
  by (simp add: update_domain_stats_def stats_of_def Let_def)

lemma quiet_errors: "quiet s s' \<Longrightarrow> errors (stats_of s' d) = errors (stats_of s d)"
  by (simp add: quiet_def fun_eq_iff)

lemma errors_error [simp]: "errors (stats_of (error m s) d) = errors (stats_of s d)"
  by (simp add: error_def stats_of_def)

lemma process_page_then_except:
  "fst (except_clauses domain url (process_page E now url depth domain content s)) = Done
   \<and> errors (stats_of (snd (except_clauses domain url
                (process_page E now url depth domain content s))) d) = errors (stats_of s d)"
proof -
  obtain st s5 where p: "process_page E now url depth domain content s = (st, s5)" by fastforce
  have q: "errors (stats_of s5 d) = errors (stats_of s d)"
    using quiet_process_page [of s E now url depth domain content] p by (simp add: quiet_errors)
  have "st = Done \<or> st = Raised ValueError"
    using process_page_status [of E now url depth domain content s] p by simp
  then show ?thesis
    using p q by (auto simp: except_clauses_def)
qed

lemma get_cached_page_cases:
  "snd (get_cached_page now url s) = s
   \<or> snd (get_cached_page now url s)
        = s\<lparr>metrics := (metrics s)\<lparr>cached_hits := cached_hits (metrics s) + 1\<rparr>\<rparr>"
  by (simp add: get_cached_page_def split: option.splits prod.splits)

lemma crawl_url_dfs_claims:
  assumes "is_running s" "depth \<le> max_depth s" "url \<notin> set (visited s)"
    and "urlparse (bracket_ok E) url [] = Inr parsed"
  shows "url \<in> set (visited (snd (crawl_url_dfs E now url depth s)))"
proof -
  define s1 where "s1 = info (Crawling_url url depth)
                          (save_visited_url now url (s\<lparr>visited := visited s @ [url]\<rparr>))"
  define s2 where "s2 = snd (get_cached_page now url s1)"
  have v2: "url \<in> set (visited s2)"
    using get_cached_page_metrics [of now url s1]
    by (auto simp: s2_def s1_def info_def save_visited_url_def)
  have keep: "url \<in> set (visited s')" if "effect depth s2 s'" for s'
  proof -
    have "appended (visited s2) (visited s') (\<lambda>u. True)" using that by (simp add: effect_def)
    then show ?thesis using v2 unfolding appended_iff_ex by auto
  qed
  have f: "url \<in> set (visited (snd (except_clauses (netloc parsed) url
                                   (fetch_page E now url depth (netloc parsed) s2))))"
    by (rule keep, rule except_clauses_effect, rule fetch_page_effect)
  have c: "url \<in> set (visited (snd (process_cached_content E url content depth s2)))" for content
    by (rule keep, rule effect_process_cached_content)
  show ?thesis
    using assms f [unfolded s2_def s1_def] c [unfolded s2_def s1_def]
    by (simp add: crawl_url_dfs_def Let_def split: option.splits)
qed

subsection \<open>The small web, evaluated\<close>

lemma demo_run_text:
  "map_option (\<lambda>s. map text_url (items (text_queue s)))
     (run_crawler demo_env [0, 1000000] [seed_url] cold_crawler) = Some [seed_url]"
  by code_simp

lemma demo_task_text:
  "map text_url (items (text_queue (snd (crawl_url_dfs demo_env 0 seed_url 0 cold_crawler)))) = [seed_url]"
  by code_simp

lemma demo_cached_text:
  "map text_url (items (text_queue
      (snd (process_cached_content demo_env seed_url seed_html 0 cold_crawler)))) = [seed_url]"
  by code_simp

lemma demo_full_task:
  "full (text_queue full_crawler) \<and> full (image_queue full_crawler)
   \<and> 50 < length (split_ws (fst (extract_text (BeautifulSoup demo_env seed_html))))
   \<and> fst (crawl_url_dfs demo_env 0 seed_url 0 full_crawler) = Done
   \<and> text_queue (snd (crawl_url_dfs demo_env 0 seed_url 0 full_crawler)) = text_queue full_crawler
   \<and> image_queue (snd (crawl_url_dfs demo_env 0 seed_url 0 full_crawler)) = image_queue full_crawler
   \<and> logged (snd (crawl_url_dfs demo_env 0 seed_url 0 full_crawler)) = [(INFO, Crawling_url seed_url 0)]"
  by code_simp

lemma demo_cache_hit:
  "fst (get_cached_page 1000000 seed_url warm_crawler) = Some seed_html
   \<and> extract_links demo_env (snd (crawl_url_dfs demo_env 1000000 seed_url 0 warm_crawler))
        (BeautifulSoup demo_env seed_html) seed_url = Inr [next_url]
   \<and> 0 < max_depth warm_crawler
   \<and> int (length (tasks warm_crawler)) < max_concurrent warm_crawler
   \<and> fst (crawl_url_dfs demo_env 1000000 seed_url 0 warm_crawler) = Done
   \<and> tasks (snd (crawl_url_dfs demo_env 1000000 seed_url 0 warm_crawler)) = tasks warm_crawler"
  by code_simp

lemma demo_cache_hit_pre:
  "is_running warm_crawler \<and> 0 \<le> max_depth warm_crawler \<and> seed_url \<notin> set (visited warm_crawler)
   \<and> urlparse (bracket_ok demo_env) seed_url []
       = Inr \<lparr>scheme = ''http'', netloc = ''seed.test'', path = ''/'', params = [],
               query = [], fragment = []\<rparr>
   \<and> pages warm_crawler seed_url = Some (seed_html, 0)
   \<and> seed_html \<noteq> []
   \<and> fst (extract_text (BeautifulSoup demo_env seed_html)) \<noteq> []
   \<and> 50 < length (split_ws (fst (extract_text (BeautifulSoup demo_env seed_html))))
   \<and> \<not> full (text_queue warm_crawler)
   \<and> items (text_queue warm_crawler) = []"
  by code_simp

lemma demo_image_link:
  "extract_links demo_env cold_crawler
     [Element ''a'' [(''href'', ''/photo.JPG'')] [Text ''photo''],
      Element ''a'' [(''href'', ''https://www.youtube.com/watch?v=1'')] [Text ''clip'']]
     seed_url
    = Inr [''http://seed.test/photo.JPG'', ''https://www.youtube.com/watch?v=1'']
   \<and> is_valid_image_url ''http://seed.test/photo.JPG''
   \<and> is_valid_video_url ''https://www.youtube.com/watch?v=1''"
  by code_simp

lemma demo_links:
  "extract_links demo_env cold_crawler seed_doc seed_url = Inr [next_url]
   \<and> urljoin (bracket_ok demo_env) seed_url ''/next'' = Inr next_url
   \<and> is_valid_url (bracket_ok demo_env) next_url
   \<and> should_crawl_url (bracket_ok demo_env) next_url = Inr True
   \<and> next_url \<notin> set (visited cold_crawler)
   \<and> find_all [''a''] seed_doc = [Element ''a'' [(''href'', ''/next'')] [Text ''next'']]"
  by code_simp

lemma demo_fetches:
  "is_running cold_crawler \<and> 0 \<le> max_depth cold_crawler
   \<and> pic_url \<notin> set (visited cold_crawler) \<and> missing_url \<notin> set (visited cold_crawler)
   \<and> pages cold_crawler pic_url = None \<and> pages cold_crawler missing_url = None
   \<and> domain_stats cold_crawler ''seed.test'' = None
   \<and> domain_stats cold_crawler ''other.test'' = None
   \<and> urlparse (bracket_ok demo_env) pic_url []
       = Inr \<lparr>scheme = ''http'', netloc = ''seed.test'', path = ''/pic.jpg'', params = [],
               query = [], fragment = []\<rparr>
   \<and> urlparse (bracket_ok demo_env) missing_url []
       = Inr \<lparr>scheme = ''http'', netloc = ''seed.test'', path = ''/missing'', params = [],
               query = [], fragment = []\<rparr>
   \<and> http_get demo_env pic_url = Response 200 (Some ''image/jpeg'') (Body ''pixels'')
   \<and> \<not> contains ''text/html'' (lower ''image/jpeg'')
   \<and> http_get demo_env missing_url = Response 404 (Some ''text/html'') (Body ''<p>gone</p>'')"
  by code_simp



lemma demo_run_visited:
  "map_option visited (run_crawler demo_env [0, 1000000] [seed_url] cold_crawler)
     = Some [seed_url, next_url]"
  by code_simp

lemma demo_run_pages:
  "map_option (\<lambda>s. (pages_crawled (metrics s), map_option fst (pages s next_url)))
     (run_crawler demo_env [0, 1000000] [seed_url] cold_crawler) = Some (2, Some leaf_html)"
  by code_simp

lemma demo_rescan:
  "tasks (snd (crawl_url_dfs demo_env 0 seed_url 0 cold_crawler)) = []
   \<and> tasks (snd (rescan demo_env 0 (snd (crawl_url_dfs demo_env 0 seed_url 0 cold_crawler))))
       = [(next_url, 0)]"
  by code_simp

lemma demo_task_depths:
  "map text_depth (items (text_queue (snd (crawl_url_dfs demo_env 0 seed_url 0 cold_crawler)))) = [0]
   \<and> map image_depth (items (image_queue (snd (crawl_url_dfs demo_env 0 seed_url 0 cold_crawler)))) = [0]"
  by code_simp

lemma demo_seed_unvisited:
  "is_running cold_crawler \<and> 0 \<le> max_depth cold_crawler \<and> seed_url \<notin> set (visited cold_crawler)
   \<and> is_valid_url (bracket_ok demo_env) seed_url"
  by code_simp

section \<open>The claims\<close>

text \<open>
  C1, as the claim states it, fails: the seed page is in the cache and fresh, it holds a
  link that \<open>extract_links\<close> returns, the depth limit and the task limit leave room, and
  yet the task for the seed returns without a new task.
\<close>

theorem cache_hit_schedules_no_link_counterexample:
  "fst (get_cached_page 1000000 seed_url warm_crawler) = Some seed_html
   \<and> extract_links demo_env (snd (crawl_url_dfs demo_env 1000000 seed_url 0 warm_crawler))
        (BeautifulSoup demo_env seed_html) seed_url = Inr [next_url]
   \<and> 0 < max_depth warm_crawler
   \<and> int (length (tasks warm_crawler)) < max_concurrent warm_crawler
   \<and> tasks (snd (crawl_url_dfs demo_env 1000000 seed_url 0 warm_crawler)) = tasks warm_crawler"
  using demo_cache_hit by simp

text \<open>
  C1, amended. When the task body finds fresh, non-empty cached HTML for its URL, it
  parses the cached document, puts a text record on the queue if the text has more than
  50 words and the queue is not full, and returns. It schedules no link, makes no
  request (it neither sleeps nor touches the origin statistics or the page table),
  and leaves the image queue and the image files alone.
\<close>

theorem cache_hit_emits_text_only:
  assumes "is_running s" and "depth \<le> max_depth s" and "url \<notin> set (visited s)"
    and "urlparse (bracket_ok E) url [] = Inr parsed"
    and "pages s url = Some (content, fetched_at)"
    and "now - fetched_at < 24 * 3600 * 1000000" and "content \<noteq> []"
  shows "fst (crawl_url_dfs E now url depth s) = Done
    \<and> tasks (snd (crawl_url_dfs E now url depth s)) = tasks s
    \<and> slept (snd (crawl_url_dfs E now url depth s)) = slept s
    \<and> domain_stats (snd (crawl_url_dfs E now url depth s)) = domain_stats s
    \<and> pages (snd (crawl_url_dfs E now url depth s)) = pages s
    \<and> image_queue (snd (crawl_url_dfs E now url depth s)) = image_queue s
    \<and> image_files (snd (crawl_url_dfs E now url depth s)) = image_files s
    \<and> items (text_queue (snd (crawl_url_dfs E now url depth s)))
        = (if fst (extract_text (BeautifulSoup E content)) \<noteq> []
              \<and> 50 < length (split_ws (fst (extract_text (BeautifulSoup E content))))
              \<and> \<not> full (text_queue s)
           then items (text_queue s)
                  @ [\<lparr>text_url = url, text_body = fst (extract_text (BeautifulSoup E content)),
                      text_depth = depth\<rparr>]
           else items (text_queue s))"
proof -
  define s1 where "s1 = info (Crawling_url url depth)
                          (save_visited_url now url (s\<lparr>visited := visited s @ [url]\<rparr>))"
  define s2 where "s2 = s1\<lparr>metrics := (metrics s1)\<lparr>cached_hits := cached_hits (metrics s1) + 1\<rparr>\<rparr>"
  have hit: "get_cached_page now url s1 = (Some content, s2)"
    using assms(5,6)
    by (simp add: get_cached_page_def timedelta_hours_def s1_def s2_def info_def save_visited_url_def)
  have eq: "crawl_url_dfs E now url depth s = process_cached_content E url content depth s2"
    using assms(1-4,7) hit [unfolded s1_def]
    by (simp add: crawl_url_dfs_def Let_def)
  have same: "tasks s2 = tasks s" "slept s2 = slept s" "domain_stats s2 = domain_stats s"
    "pages s2 = pages s" "image_queue s2 = image_queue s" "image_files s2 = image_files s"
    "text_queue s2 = text_queue s"
    by (simp_all add: s2_def s1_def info_def save_visited_url_def)
  show ?thesis
    unfolding eq
    by (simp add: process_cached_content_def emit_text_def put_def info_def Let_def same)
qed

theorem cache_hit_emits_text_only_witness:
  "fst (crawl_url_dfs demo_env 1000000 seed_url 0 warm_crawler) = Done
   \<and> tasks (snd (crawl_url_dfs demo_env 1000000 seed_url 0 warm_crawler)) = tasks warm_crawler
   \<and> slept (snd (crawl_url_dfs demo_env 1000000 seed_url 0 warm_crawler)) = slept warm_crawler
   \<and> image_queue (snd (crawl_url_dfs demo_env 1000000 seed_url 0 warm_crawler))
        = image_queue warm_crawler
   \<and> items (text_queue (snd (crawl_url_dfs demo_env 1000000 seed_url 0 warm_crawler)))
        = [\<lparr>text_url = seed_url,
            text_body = fst (extract_text (BeautifulSoup demo_env seed_html)),
            text_depth = 0\<rparr>]"
  using cache_hit_emits_text_only [of warm_crawler 0 seed_url demo_env
          "\<lparr>scheme = ''http'', netloc = ''seed.test'', path = ''/'', params = [],
             query = [], fragment = []\<rparr>" seed_html 0 1000000]
        demo_cache_hit_pre
  by simp

text \<open>
  C2. Every text record that a crawl task, the processing of a cached page, or a whole run
  adds to the text queue has more than 50 words.
\<close>

theorem text_records_above_floor:
  "(\<exists>new. items (text_queue (snd (crawl_url_dfs E now url depth s))) = items (text_queue s) @ new
          \<and> (\<forall>r\<in>set new. 50 < length (split_ws (text_body r))))
   \<and> (\<exists>new. items (text_queue (snd (process_cached_content E url content depth s)))
              = items (text_queue s) @ new
          \<and> (\<forall>r\<in>set new. 50 < length (split_ws (text_body r))))
   \<and> (run_crawler E clock seed_urls s = Some s' \<longrightarrow>
        (\<exists>new. items (text_queue s') = items (text_queue s) @ new
          \<and> (\<forall>r\<in>set new. 50 < length (split_ws (text_body r)))))"
proof (intro conjI impI)
  show "\<exists>new. items (text_queue (snd (crawl_url_dfs E now url depth s))) = items (text_queue s) @ new
          \<and> (\<forall>r\<in>set new. 50 < length (split_ws (text_body r)))"
    using floor_kept_task [of s E now url depth]
    unfolding floor_kept_def appended_iff_ex .
next
  have "appended (items (text_queue s))
          (items (text_queue (snd (process_cached_content E url content depth s)))) (eligible depth)"
    using effect_process_cached_content [of depth s E url content] by (simp add: effect_def)
  then have "appended (items (text_queue s))
          (items (text_queue (snd (process_cached_content E url content depth s))))
          (\<lambda>r. 50 < length (split_ws (text_body r)))"
    by (rule appended_mono) (simp add: eligible_def)
  then show "\<exists>new. items (text_queue (snd (process_cached_content E url content depth s)))
              = items (text_queue s) @ new
          \<and> (\<forall>r\<in>set new. 50 < length (split_ws (text_body r)))"
    unfolding appended_iff_ex .
next
  assume "run_crawler E clock seed_urls s = Some s'"
  then show "\<exists>new. items (text_queue s') = items (text_queue s) @ new
          \<and> (\<forall>r\<in>set new. 50 < length (split_ws (text_body r)))"
    using floor_kept_run_crawler unfolding floor_kept_def appended_iff_ex by blast
qed

theorem text_records_above_floor_witness:
  "(\<exists>s'. run_crawler demo_env [0, 1000000] [seed_url] cold_crawler = Some s'
         \<and> map text_url (items (text_queue s')) = [seed_url]
         \<and> 50 < length (split_ws (text_body (hd (items (text_queue s'))))))
   \<and> map text_url (items (text_queue (snd (crawl_url_dfs demo_env 0 seed_url 0 cold_crawler))))
        = [seed_url]
   \<and> 50 < length (split_ws (text_body (hd (items (text_queue
              (snd (crawl_url_dfs demo_env 0 seed_url 0 cold_crawler)))))))
   \<and> map text_url (items (text_queue
              (snd (process_cached_content demo_env seed_url seed_html 0 cold_crawler))))
        = [seed_url]
   \<and> 50 < length (split_ws (text_body (hd (items (text_queue
              (snd (process_cached_content demo_env seed_url seed_html 0 cold_crawler)))))))"
proof -
  have empty: "items (text_queue cold_crawler) = []"
    by (simp add: cold_crawler_def new_crawler_def)
  obtain s' where run: "run_crawler demo_env [0, 1000000] [seed_url] cold_crawler = Some s'"
    and urls: "map text_url (items (text_queue s')) = [seed_url]"
    using demo_run_text by auto
  have "\<forall>r\<in>set (items (text_queue s')). 50 < length (split_ws (text_body r))"
    using text_records_above_floor [of demo_env 0 seed_url 0 cold_crawler seed_html
            "[0, 1000000]" "[seed_url]" s'] run empty by auto
  moreover have "items (text_queue s') \<noteq> []" using urls by auto
  ultimately have a: "50 < length (split_ws (text_body (hd (items (text_queue s')))))"
    by simp
  have "\<forall>r\<in>set (items (text_queue (snd (crawl_url_dfs demo_env 0 seed_url 0 cold_crawler)))).
          50 < length (split_ws (text_body r))"
    using text_records_above_floor [of demo_env 0 seed_url 0 cold_crawler seed_html
            "[0, 1000000]" "[seed_url]" s'] empty by auto
  moreover have "items (text_queue (snd (crawl_url_dfs demo_env 0 seed_url 0 cold_crawler))) \<noteq> []"
    using demo_task_text by auto
  ultimately have b: "50 < length (split_ws (text_body (hd (items (text_queue
              (snd (crawl_url_dfs demo_env 0 seed_url 0 cold_crawler)))))))"
    by simp
  have "\<forall>r\<in>set (items (text_queue
            (snd (process_cached_content demo_env seed_url seed_html 0 cold_crawler)))).
          50 < length (split_ws (text_body r))"
    using text_records_above_floor [of demo_env 0 seed_url 0 cold_crawler seed_html
            "[0, 1000000]" "[seed_url]" s'] empty by auto
  moreover have "items (text_queue
            (snd (process_cached_content demo_env seed_url seed_html 0 cold_crawler))) \<noteq> []"
    using demo_cached_text by auto
  ultimately have c: "50 < length (split_ws (text_body (hd (items (text_queue
              (snd (process_cached_content demo_env seed_url seed_html 0 cold_crawler)))))))"
    by simp
  show ?thesis
    by (intro conjI exI [of _ s'])
       (rule run urls a b c demo_task_text demo_cached_text)+
qed

text \<open>
  C3, as the claim states it, fails: an anchor that points to an image and an anchor
  that points to a video platform are both returned as links to crawl.
\<close>

theorem extract_links_keeps_media_counterexample:
  "extract_links demo_env cold_crawler
     [Element ''a'' [(''href'', ''/photo.JPG'')] [Text ''photo''],
      Element ''a'' [(''href'', ''https://www.youtube.com/watch?v=1'')] [Text ''clip'']]
     seed_url
    = Inr [''http://seed.test/photo.JPG'', ''https://www.youtube.com/watch?v=1'']
   \<and> is_valid_image_url ''http://seed.test/photo.JPG''
   \<and> is_valid_video_url ''https://www.youtube.com/watch?v=1''"
  using demo_image_link by simp

text \<open>
  C3, amended. The links that link extraction returns are exactly the URLs obtained by
  \<open>urljoin\<close> of the base URL with the non-empty href of an anchor element that pass
  \<open>is_valid_url\<close> (a scheme and a netloc) and \<open>should_crawl_url\<close> (no skip-domain in the
  netloc) and are not yet in \<open>visited\<close>. Image and video URLs are not filtered out.
\<close>

theorem extract_links_membership:
  "extract_links E s doc base_url = Inr links \<Longrightarrow>
   (u \<in> set links \<longleftrightarrow>
     (\<exists>a\<in>set (find_all [''a''] doc). \<exists>href. get a ''href'' = Some href \<and> href \<noteq> []
         \<and> urljoin (bracket_ok E) base_url href = Inr u
         \<and> is_valid_url (bracket_ok E) u
         \<and> should_crawl_url (bracket_ok E) u = Inr True
         \<and> u \<notin> set (visited s)))"
proof -
  assume "extract_links E s doc base_url = Inr links"
  then have "set links = set [] \<union>
     {u. \<exists>a\<in>set (find_all [''a''] doc). \<exists>href. get a ''href'' = Some href \<and> href \<noteq> []
           \<and> urljoin (bracket_ok E) base_url href = Inr u \<and> is_valid_url (bracket_ok E) u
           \<and> should_crawl_url (bracket_ok E) u = Inr True \<and> u \<notin> set (visited s)}"
    unfolding extract_links_def by (rule extract_links_loop_set)
  then show ?thesis by simp
qed

theorem extract_links_membership_witness:
  "extract_links demo_env cold_crawler seed_doc seed_url = Inr [next_url]
   \<and> next_url \<in> set [next_url]
   \<and> get (Element ''a'' [(''href'', ''/next'')] [Text ''next'']) ''href'' = Some ''/next''
   \<and> urljoin (bracket_ok demo_env) seed_url ''/next'' = Inr next_url
   \<and> is_valid_url (bracket_ok demo_env) next_url
   \<and> should_crawl_url (bracket_ok demo_env) next_url = Inr True
   \<and> next_url \<notin> set (visited cold_crawler)"
proof -
  have "next_url \<in> set [next_url]"
    using extract_links_membership [of demo_env cold_crawler seed_doc seed_url "[next_url]" next_url]
          demo_links
    by simp
  then show ?thesis using demo_links by simp
qed

text \<open>
  C4, as the claim states it, fails: with both queues full, the task for the seed page
  (51 words, one image) drops both records, returns, and has logged nothing but the
  line that announces the crawl.
\<close>

theorem queue_full_warning_counterexample:
  "full (text_queue full_crawler) \<and> full (image_queue full_crawler)
   \<and> 50 < length (split_ws (fst (extract_text (BeautifulSoup demo_env seed_html))))
   \<and> text_queue (snd (crawl_url_dfs demo_env 0 seed_url 0 full_crawler)) = text_queue full_crawler
   \<and> image_queue (snd (crawl_url_dfs demo_env 0 seed_url 0 full_crawler)) = image_queue full_crawler
   \<and> WARNING \<notin> set (map fst (logged (snd (crawl_url_dfs demo_env 0 seed_url 0 full_crawler))))
   \<and> logged (snd (crawl_url_dfs demo_env 0 seed_url 0 full_crawler)) = [(INFO, Crawling_url seed_url 0)]"
  using demo_full_task by simp

text \<open>
  C4, amended. A crawl task never waits in \<open>put\<close>, and so no pass of the scheduler loop
  does: \<open>put\<close> is only called on a queue that is not full. A record produced while its
  queue is full is dropped: the queue is unchanged, and for a text record nothing at all
  happens. No task ever logs a warning.
\<close>

theorem queue_full_drops_silently:
  "fst (crawl_url_dfs E now url depth s) \<noteq> Blocked
   \<and> fst (loop_pass E now s) \<noteq> Blocked
   \<and> (full (text_queue s) \<longrightarrow> emit_text msg url text depth s = (Done, s))
   \<and> (full (text_queue s) \<longrightarrow> text_queue (snd (crawl_url_dfs E now url depth s)) = text_queue s)
   \<and> (full (image_queue s) \<longrightarrow> image_queue (snd (crawl_url_dfs E now url depth s)) = image_queue s)
   \<and> (\<exists>new. logged (snd (crawl_url_dfs E now url depth s)) = logged s @ new
              \<and> WARNING \<notin> fst ` set new)"
proof -
  have e: "effect depth s (snd (crawl_url_dfs E now url depth s))"
    by (rule crawl_url_dfs_effect)
  have 1: "fst (crawl_url_dfs E now url depth s) \<noteq> Blocked"
    using crawl_url_dfs_status [of E now url depth s] by auto
  have 2: "emit_text msg url text depth s = (Done, s)" if "full (text_queue s)"
    using that by (simp add: emit_text_def)
  have 3: "text_queue (snd (crawl_url_dfs E now url depth s)) = text_queue s"
    if "full (text_queue s)"
    using e that by (intro queue_eqI) (simp_all add: effect_def)
  have 4: "image_queue (snd (crawl_url_dfs E now url depth s)) = image_queue s"
    if "full (image_queue s)"
    using e that by (intro queue_eqI) (simp_all add: effect_def)
  have "appended (logged s) (logged (snd (crawl_url_dfs E now url depth s))) (\<lambda>e. fst e \<noteq> WARNING)"
    using e by (simp add: effect_def)
  then have 5: "\<exists>new. logged (snd (crawl_url_dfs E now url depth s)) = logged s @ new
              \<and> WARNING \<notin> fst ` set new"
    unfolding appended_iff_ex by force
  show ?thesis using 1 2 3 4 5 loop_pass_status by blast
qed

theorem queue_full_drops_silently_witness:
  "full (text_queue full_crawler) \<and> full (image_queue full_crawler)
   \<and> fst (crawl_url_dfs demo_env 0 seed_url 0 full_crawler) \<noteq> Blocked
   \<and> emit_text (Added_text seed_url) seed_url (fst (extract_text seed_doc)) 0 full_crawler
        = (Done, full_crawler)
   \<and> text_queue (snd (crawl_url_dfs demo_env 0 seed_url 0 full_crawler)) = text_queue full_crawler
   \<and> image_queue (snd (crawl_url_dfs demo_env 0 seed_url 0 full_crawler)) = image_queue full_crawler"
  using queue_full_drops_silently [of demo_env 0 seed_url 0 full_crawler "Added_text seed_url"
          "fst (extract_text seed_doc)"]
        demo_full_task
  by simp

text \<open>
  C5. For an origin with \<open>e\<close> recorded errors and \<open>n\<close> recorded successes (both zero for
  an origin without a record) the adaptive delay is
  \<open>1.0 * (1 + 0.5 * e) * max 0.5 (1 - 0.1 * n)\<close>. With no errors it is at least 0.5, and
  exactly 0.5 from five successes on; it exceeds any bound once \<open>e\<close> is at least four times
  the bound. This delay, computed from the statistics at that moment, is what the task
  sleeps before its request. Python's floats are read as exact reals.
\<close>

theorem adaptive_delay_formula:
  "stats_of s d = \<lparr>errors = e, success = n\<rparr> \<Longrightarrow>
     get_adaptive_delay s d = 1.0 * (1 + 0.5 * real e) * max 0.5 (1 - 0.1 * real n)
     \<and> (e = 0 \<longrightarrow> 0.5 \<le> get_adaptive_delay s d)
     \<and> (e = 0 \<and> 5 \<le> n \<longrightarrow> get_adaptive_delay s d = 0.5)
     \<and> (4 * bound \<le> real e \<longrightarrow> bound < get_adaptive_delay s d)
     \<and> slept (snd (fetch_page E now url depth d s)) = slept s @ [get_adaptive_delay s d]"
proof -
  assume st: "stats_of s d = \<lparr>errors = e, success = n\<rparr>"
  have formula: "get_adaptive_delay s d = (1 + 0.5 * real e) * max 0.5 (1 - 0.1 * real n)"
    by (simp add: adaptive_delay_unfold st)
  have grows: "bound < get_adaptive_delay s d" if "4 * bound \<le> real e"
  proof -
    have "bound < (1 + 0.5 * real e) * 0.5" using that by simp
    also have "\<dots> \<le> (1 + 0.5 * real e) * max 0.5 (1 - 0.1 * real n)"
      by (intro mult_left_mono) simp_all
    finally show ?thesis by (simp add: formula)
  qed
  show ?thesis
    using grows by (simp add: formula max_def fetch_page_sleeps)
qed

theorem adaptive_delay_formula_witness:
  "get_adaptive_delay
      ((new_crawler 3 4 10 10)\<lparr>domain_stats := [''a.test'' \<mapsto> \<lparr>errors = 0, success = 7\<rparr>]\<rparr>)
      ''a.test'' = 0.5
   \<and> get_adaptive_delay
      ((new_crawler 3 4 10 10)\<lparr>domain_stats := [''a.test'' \<mapsto> \<lparr>errors = 40, success = 2\<rparr>]\<rparr>)
      ''a.test'' = 16.8
   \<and> 10 < get_adaptive_delay
      ((new_crawler 3 4 10 10)\<lparr>domain_stats := [''a.test'' \<mapsto> \<lparr>errors = 40, success = 2\<rparr>]\<rparr>)
      ''a.test''
   \<and> slept (snd (fetch_page demo_env 0 missing_url 0 ''seed.test'' (new_crawler 3 4 10 10))) = [1]"
  using adaptive_delay_formula
          [of "(new_crawler 3 4 10 10)\<lparr>domain_stats := [''a.test'' \<mapsto> \<lparr>errors = 0, success = 7\<rparr>]\<rparr>"
              "''a.test''" 0 7 0 demo_env 0 missing_url 0]
        adaptive_delay_formula
          [of "(new_crawler 3 4 10 10)\<lparr>domain_stats := [''a.test'' \<mapsto> \<lparr>errors = 40, success = 2\<rparr>]\<rparr>"
              "''a.test''" 40 2 10 demo_env 0 missing_url 0]
        adaptive_delay_formula
          [of "new_crawler 3 4 10 10" "''seed.test''" 0 0 0 demo_env 0 missing_url 0]
  by (simp add: stats_of_def new_crawler_def)

text \<open>
  C6. The cache lookup returns the stored HTML exactly when the page table has an entry for
  the URL whose age \<open>now - fetched_at\<close> is below 24 hours, and reports a miss otherwise; it
  leaves the page table as it is, so a stale entry is neither returned nor deleted.
\<close>

theorem get_cached_page_fresh:
  "(fst (get_cached_page now url s) = Some html \<longleftrightarrow>
      (\<exists>fetched_at. pages s url = Some (html, fetched_at) \<and> now - fetched_at < 24 * 3600 * 1000000))
   \<and> (fst (get_cached_page now url s) = None \<longleftrightarrow>
      \<not> (\<exists>content fetched_at. pages s url = Some (content, fetched_at)
            \<and> now - fetched_at < 24 * 3600 * 1000000))
   \<and> pages (snd (get_cached_page now url s)) = pages s"
  by (auto simp: get_cached_page_def timedelta_hours_def split: option.splits prod.splits)

theorem get_cached_page_fresh_witness:
  "fst (get_cached_page 86399999999 ''http://a.test/''
         (cache_page 0 ''http://a.test/'' ''<p>hi</p>'' (new_crawler 3 4 10 10))) = Some ''<p>hi</p>''
   \<and> fst (get_cached_page 86400000000 ''http://a.test/''
         (cache_page 0 ''http://a.test/'' ''<p>hi</p>'' (new_crawler 3 4 10 10))) = None
   \<and> pages (snd (get_cached_page 86400000000 ''http://a.test/''
         (cache_page 0 ''http://a.test/'' ''<p>hi</p>'' (new_crawler 3 4 10 10)))) ''http://a.test/''
       = Some (''<p>hi</p>'', 0)"
  using get_cached_page_fresh [of 86399999999 "''http://a.test/''"
          "cache_page 0 ''http://a.test/'' ''<p>hi</p>'' (new_crawler 3 4 10 10)" "''<p>hi</p>''"]
        get_cached_page_fresh [of 86400000000 "''http://a.test/''"
          "cache_page 0 ''http://a.test/'' ''<p>hi</p>'' (new_crawler 3 4 10 10)" "''<p>hi</p>''"]
  by (simp add: cache_page_def new_crawler_def)

text \<open>
  C7. Take a task that reaches the request: the crawler runs, the depth is within the
  limit, the URL is new and parses, and the cache has no fresh non-empty page for it. If
  the answer has status 200 and a content type without \<open>text/html\<close>, the task returns
  with the origin statistics and the count of failed requests unchanged. In every case
  the error count of an origin grows by one exactly when it is the origin of the URL and
  the request or the reading of the body raised a client or timeout error, or the
  status was not 200; otherwise it does not change.
\<close>

theorem origin_errors_from_transport_and_status_only:
  assumes "is_running s" and "depth \<le> max_depth s" and "url \<notin> set (visited s)"
    and "urlparse (bracket_ok E) url [] = Inr parsed"
    and "pages s url = None \<or> (\<exists>fetched_at. pages s url = Some ([], fetched_at))
         \<or> (\<exists>content fetched_at. pages s url = Some (content, fetched_at)
               \<and> 24 * 3600 * 1000000 \<le> now - fetched_at)"
  shows "(http_get E url = Response 200 ctype b
           \<and> \<not> contains ''text/html'' (lower (case ctype of None \<Rightarrow> [] | Some c \<Rightarrow> c))
          \<longrightarrow> fst (crawl_url_dfs E now url depth s) = Done
              \<and> domain_stats (snd (crawl_url_dfs E now url depth s)) = domain_stats s
              \<and> failed_requests (metrics (snd (crawl_url_dfs E now url depth s)))
                  = failed_requests (metrics s))
    \<and> errors (stats_of (snd (crawl_url_dfs E now url depth s)) d)
        = errors (stats_of s d)
          + (case http_get E url of
               Get_raises e \<Rightarrow>
                 if d = netloc parsed \<and> (e = ClientError \<or> e = TimeoutError) then 1 else 0
             | Response st ct content_body \<Rightarrow>
                 if st \<noteq> 200 then (if d = netloc parsed then 1 else 0)
                 else if \<not> contains ''text/html'' (lower (case ct of None \<Rightarrow> [] | Some c \<Rightarrow> c))
                 then 0
                 else (case content_body of
                         Body_raises e \<Rightarrow>
                           if d = netloc parsed \<and> (e = ClientError \<or> e = TimeoutError)
                           then 1 else 0
                       | Body content \<Rightarrow> 0))"
proof -
  define s1 where "s1 = info (Crawling_url url depth)
                          (save_visited_url now url (s\<lparr>visited := visited s @ [url]\<rparr>))"
  define s2 where "s2 = snd (get_cached_page now url s1)"
  define s3 where "s3 = s2\<lparr>slept := slept s2 @ [get_adaptive_delay s2 (netloc parsed)]\<rparr>"
  have p1: "pages s1 = pages s"
    by (simp add: s1_def info_def save_visited_url_def)
  have miss: "fst (get_cached_page now url s1) = None \<or> fst (get_cached_page now url s1) = Some []"
    using assms(5) by (auto simp: get_cached_page_def p1 timedelta_hours_def)
  have eq: "crawl_url_dfs E now url depth s
              = except_clauses (netloc parsed) url (fetch_page E now url depth (netloc parsed) s2)"
    using assms(1-4) miss unfolding s2_def s1_def
    by (auto simp: crawl_url_dfs_def Let_def)
  have "s2 = s1 \<or> s2 = s1\<lparr>metrics := (metrics s1)\<lparr>cached_hits := cached_hits (metrics s1) + 1\<rparr>\<rparr>"
    unfolding s2_def by (rule get_cached_page_cases)
  then have d3: "domain_stats s3 = domain_stats s"
    and f3: "failed_requests (metrics s3) = failed_requests (metrics s)"
    by (auto simp: s3_def s1_def info_def save_visited_url_def)
  have e3: "stats_of s3 = stats_of s"
    using d3 by (rule stats_of_same)
  have fetch: "fetch_page E now url depth (netloc parsed) s2 =
    (case http_get E url of
          Get_raises e \<Rightarrow> (Raised e, s3)
        | Response st ct content_body \<Rightarrow>
           if st \<noteq> 200 then (Done, update_domain_stats (netloc parsed) False s3)
           else if \<not> contains ''text/html'' (lower (case ct of None \<Rightarrow> [] | Some c \<Rightarrow> c))
           then (Done, s3)
           else (case content_body of
                   Body_raises e \<Rightarrow> (Raised e, s3)
                 | Body content \<Rightarrow> process_page E now url depth (netloc parsed) content s3))"
    unfolding fetch_page_def Let_def s3_def by (rule refl)
  have raised: "errors (stats_of (snd (except_clauses (netloc parsed) url (Raised e, s3))) d)
                  = errors (stats_of s d)
                    + (if d = netloc parsed \<and> (e = ClientError \<or> e = TimeoutError) then 1 else 0)"
    for e
    by (simp add: except_clauses_def errors_counted e3)
  have first: "fst (crawl_url_dfs E now url depth s) = Done
              \<and> domain_stats (snd (crawl_url_dfs E now url depth s)) = domain_stats s
              \<and> failed_requests (metrics (snd (crawl_url_dfs E now url depth s)))
                  = failed_requests (metrics s)"
    if "http_get E url = Response 200 ctype b
           \<and> \<not> contains ''text/html'' (lower (case ctype of None \<Rightarrow> [] | Some c \<Rightarrow> c))"
    using that by (simp add: eq fetch except_clauses_def d3 f3)
  have second: "errors (stats_of (snd (crawl_url_dfs E now url depth s)) d)
        = errors (stats_of s d)
          + (case http_get E url of
               Get_raises e \<Rightarrow>
                 if d = netloc parsed \<and> (e = ClientError \<or> e = TimeoutError) then 1 else 0
             | Response st ct content_body \<Rightarrow>
                 if st \<noteq> 200 then (if d = netloc parsed then 1 else 0)
                 else if \<not> contains ''text/html'' (lower (case ct of None \<Rightarrow> [] | Some c \<Rightarrow> c))
                 then 0
                 else (case content_body of
                         Body_raises e \<Rightarrow>
                           if d = netloc parsed \<and> (e = ClientError \<or> e = TimeoutError)
                           then 1 else 0
                       | Body content \<Rightarrow> 0))"
  proof (cases "http_get E url")
    case (Get_raises e)
    then show ?thesis using raised [of e] by (simp add: eq fetch)
  next
    case (Response st ct content_body)
    show ?thesis
    proof (cases "st \<noteq> 200")
      case True
      with Response show ?thesis
        by (simp add: eq fetch except_clauses_def errors_counted e3)
    next
      case ok: False
      show ?thesis
      proof (cases "contains ''text/html'' (lower (case ct of None \<Rightarrow> [] | Some c \<Rightarrow> c))")
        case False
        with Response ok show ?thesis
          by (simp add: eq fetch except_clauses_def e3)
      next
        case True
        show ?thesis
        proof (cases content_body)
          case (Body content)
          with Response ok True show ?thesis
            using process_page_then_except [of "netloc parsed" url E now depth content s3 d]
            by (simp add: eq fetch e3)
        next
          case (Body_raises e)
          with Response ok True show ?thesis
            using raised [of e] by (simp add: eq fetch)
        qed
      qed
    qed
  qed
  show ?thesis using first second by blast
qed

theorem origin_errors_from_transport_and_status_only_witness:
  "fst (crawl_url_dfs demo_env 0 pic_url 0 cold_crawler) = Done
   \<and> domain_stats (snd (crawl_url_dfs demo_env 0 pic_url 0 cold_crawler)) = domain_stats cold_crawler
   \<and> errors (stats_of (snd (crawl_url_dfs demo_env 0 pic_url 0 cold_crawler)) ''seed.test'') = 0
   \<and> errors (stats_of (snd (crawl_url_dfs demo_env 0 missing_url 0 cold_crawler)) ''seed.test'') = 1
   \<and> errors (stats_of (snd (crawl_url_dfs demo_env 0 missing_url 0 cold_crawler)) ''other.test'') = 0"
  using origin_errors_from_transport_and_status_only
          [of cold_crawler 0 pic_url demo_env
              "\<lparr>scheme = ''http'', netloc = ''seed.test'', path = ''/pic.jpg'', params = [],
                 query = [], fragment = []\<rparr>" 0 "Some ''image/jpeg''" "Body ''pixels''"
              "''seed.test''"]
        origin_errors_from_transport_and_status_only
          [of cold_crawler 0 missing_url demo_env
              "\<lparr>scheme = ''http'', netloc = ''seed.test'', path = ''/missing'', params = [],
                 query = [], fragment = []\<rparr>" 0 "Some ''text/html''" "Body ''<p>gone</p>''"
              "''seed.test''"]
        origin_errors_from_transport_and_status_only
          [of cold_crawler 0 missing_url demo_env
              "\<lparr>scheme = ''http'', netloc = ''seed.test'', path = ''/missing'', params = [],
                 query = [], fragment = []\<rparr>" 0 "Some ''text/html''" "Body ''<p>gone</p>''"
              "''other.test''"]
        demo_fetches
  by (simp add: stats_of_def)




text \<open>
  C9. The code breaks the claim: with \<open>max_depth = 0\<close>, an empty cache and the seed of the
  small web (one anchor, one image), the run ends after two passes of the loop with the
  anchor's target visited as well.
\<close>

theorem depth_zero_run_expands_links:
  "max_depth cold_crawler = 0 \<and> visited cold_crawler = [] \<and> pages cold_crawler seed_url = None
   \<and> map_option (\<lambda>s. set (visited s)) (run_crawler demo_env [0, 1000000] [seed_url] cold_crawler)
        = Some {seed_url, next_url}
   \<and> {seed_url, next_url} \<noteq> {seed_url}"
proof -
  have "max_depth cold_crawler = 0 \<and> visited cold_crawler = [] \<and> pages cold_crawler seed_url = None"
    by (simp add: cold_crawler_def new_crawler_def)
  moreover have "map_option (\<lambda>s. set (visited s))
                   (run_crawler demo_env [0, 1000000] [seed_url] cold_crawler)
                 = Some {seed_url, next_url}"
    using demo_run_visited by auto
  moreover have "{seed_url, next_url} \<noteq> {seed_url}"
    by (auto simp: seed_url_def next_url_def)
  ultimately show ?thesis by blast
qed

text \<open>
  C10. Every task that the rescan of the scheduler loop creates has depth 0, whatever
  page the link was found on. A task of depth 0 stamps its text and image records with
  depth 0, and the depth check never stops it when \<open>max_depth\<close> is not negative: it claims
  its URL. On the small web, with \<open>max_depth = 0\<close>, the page one hop from the seed is
  visited, fetched and cached.
\<close>

theorem rescan_tasks_start_at_depth_zero:
  "(\<exists>new. tasks (snd (rescan E now s)) = tasks s @ new \<and> (\<forall>t\<in>set new. snd t = 0))
   \<and> (\<exists>new. items (text_queue (snd (crawl_url_dfs E now url 0 s))) = items (text_queue s) @ new
          \<and> (\<forall>r\<in>set new. text_depth r = 0))
   \<and> (\<exists>new. items (image_queue (snd (crawl_url_dfs E now url 0 s))) = items (image_queue s) @ new
          \<and> (\<forall>r\<in>set new. image_depth r = 0))
   \<and> (is_running s \<and> 0 \<le> max_depth s \<and> url \<notin> set (visited s)
        \<and> is_valid_url (bracket_ok E) url
        \<longrightarrow> url \<in> set (visited (snd (crawl_url_dfs E now url 0 s))))
   \<and> max_depth cold_crawler = 0
   \<and> map_option visited (run_crawler demo_env [0, 1000000] [seed_url] cold_crawler)
        = Some [seed_url, next_url]
   \<and> map_option (\<lambda>s. (pages_crawled (metrics s), map_option fst (pages s next_url)))
        (run_crawler demo_env [0, 1000000] [seed_url] cold_crawler) = Some (2, Some leaf_html)"
proof -
  have 1: "\<exists>new. tasks (snd (rescan E now s)) = tasks s @ new \<and> (\<forall>t\<in>set new. snd t = 0)"
    using rescan_shape [of E now s] by auto
  have e: "effect 0 s (snd (crawl_url_dfs E now url 0 s))"
    by (rule crawl_url_dfs_effect)
  have "appended (items (text_queue s)) (items (text_queue (snd (crawl_url_dfs E now url 0 s))))
          (\<lambda>r. text_depth r = 0)"
    using e by (auto simp: effect_def eligible_def elim: appended_mono)
  then have 2: "\<exists>new. items (text_queue (snd (crawl_url_dfs E now url 0 s))) = items (text_queue s) @ new
          \<and> (\<forall>r\<in>set new. text_depth r = 0)"
    unfolding appended_iff_ex .
  have "appended (items (image_queue s)) (items (image_queue (snd (crawl_url_dfs E now url 0 s))))
          (\<lambda>r. image_depth r = 0)"
    using e by (simp add: effect_def)
  then have 3: "\<exists>new. items (image_queue (snd (crawl_url_dfs E now url 0 s))) = items (image_queue s) @ new
          \<and> (\<forall>r\<in>set new. image_depth r = 0)"
    unfolding appended_iff_ex .
  have 4: "url \<in> set (visited (snd (crawl_url_dfs E now url 0 s)))"
    if h: "is_running s \<and> 0 \<le> max_depth s \<and> url \<notin> set (visited s)
           \<and> is_valid_url (bracket_ok E) url"
  proof -
    obtain parsed where "urlparse (bracket_ok E) url [] = Inr parsed"
      using h by (cases "urlparse (bracket_ok E) url []") (auto simp: is_valid_url_def)
    with h show ?thesis by (intro crawl_url_dfs_claims) auto
  qed
  have 5: "max_depth cold_crawler = 0"
    by (simp add: cold_crawler_def new_crawler_def)
  show ?thesis
    using 1 2 3 4 5 demo_run_visited demo_run_pages by blast
qed

theorem rescan_tasks_start_at_depth_zero_witness:
  "tasks (snd (rescan demo_env 0 (snd (crawl_url_dfs demo_env 0 seed_url 0 cold_crawler))))
       = [(next_url, 0)]
   \<and> snd (hd (tasks (snd (rescan demo_env 0 (snd (crawl_url_dfs demo_env 0 seed_url 0 cold_crawler)))))) = 0
   \<and> map text_depth (items (text_queue (snd (crawl_url_dfs demo_env 0 seed_url 0 cold_crawler)))) = [0]
   \<and> map image_depth (items (image_queue (snd (crawl_url_dfs demo_env 0 seed_url 0 cold_crawler)))) = [0]
   \<and> seed_url \<in> set (visited (snd (crawl_url_dfs demo_env 0 seed_url 0 cold_crawler)))"
proof -
  let ?s1 = "snd (crawl_url_dfs demo_env 0 seed_url 0 cold_crawler)"
  have "\<forall>t\<in>set (tasks (snd (rescan demo_env 0 ?s1))). snd t = 0"
    using rescan_tasks_start_at_depth_zero [of demo_env 0 ?s1 seed_url] demo_rescan by auto
  moreover have "tasks (snd (rescan demo_env 0 ?s1)) \<noteq> []" using demo_rescan by simp
  ultimately have a: "snd (hd (tasks (snd (rescan demo_env 0 ?s1)))) = 0" by simp
  have b: "seed_url \<in> set (visited ?s1)"
    using rescan_tasks_start_at_depth_zero [of demo_env 0 cold_crawler seed_url] demo_seed_unvisited
    by blast
  show ?thesis
    using a b demo_rescan demo_task_depths by simp
qed

end
